theory Spec2Isabelle
  imports Main "HOL-Library.Word"
begin

section \<open>Configuration constants\<close>

text \<open>
  The two programs of the repository, \<^verbatim>\<open>src/index.js\<close> (uploads kept on disk) and
  \<^verbatim>\<open>src/unnamed/part_000\<close> (uploads kept in a \<^verbatim>\<open>Map\<close>), open with the same constants.
  Counters, sizes and times (in milliseconds) are natural numbers, and strings are 8-bit
  character lists.
\<close>

definition expireDelay :: nat where
  "expireDelay = 30"

definition maxExpireDuration :: nat where
  "maxExpireDuration = 1 * 60 * 60"

definition maxFileSize :: nat where
  "maxFileSize = 1024 * 1024 * 800"

definition TYPE_EPUB :: string where
  "TYPE_EPUB = ''application/epub+zip''"

definition TYPE_MOBI :: string where
  "TYPE_MOBI = ''application/x-mobipocket-ebook''"

definition allowedTypes :: "string list" where
  "allowedTypes = [TYPE_EPUB, TYPE_MOBI, ''application/pdf'', ''application/vnd.comicbook+zip'',
     ''application/vnd.comicbook-rar'', ''text/html'', ''text/plain'', ''application/zip'',
     ''application/x-rar-compressed'']"

definition allowedExtensions :: "string list" where
  "allowedExtensions = [''epub'', ''mobi'', ''pdf'', ''cbz'', ''cbr'', ''html'', ''txt'']"

definition keyChars :: string where
  "keyChars = ''23456789ACDEFGHJKLMNPRSTUVWXYZ''"

definition keyLength :: nat where
  "keyLength = 4"

section \<open>The key generator\<close>

text \<open>
  \<^verbatim>\<open>randomKey\<close> reads the globals \<^verbatim>\<open>keyChars\<close> and \<^verbatim>\<open>keyLength\<close>; here they are
  arguments, so that other configurations can be stated. \<^verbatim>\<open>Math.random()\<close> is the third
  argument: a natural number that stands for the value drawn, 0 for the double 0.
\<close>

datatype error =
    RangeError
  | HttpError nat "string option"
  | Error string
  | TypeError string
  | DenoNotFound

text \<open>The number of codes of a configuration, as a natural number.\<close>

definition choices :: "string \<Rightarrow> nat \<Rightarrow> nat" where
  "choices chars len = length chars ^ len"

text \<open>
  The JavaScript numbers the generator meets: a non-negative integer, \<^verbatim>\<open>Infinity\<close> or
  \<^verbatim>\<open>NaN\<close>.
\<close>

datatype number = Finite nat | Infinity | NaN

text \<open>
  \<^verbatim>\<open>Math.pow(b, e)\<close> on non-negative integers. Up to \<open>2 ^ 53\<close> the power is an integer that a
  double holds exactly, as is every integer below it; from \<open>2 ^ 1024\<close> on it is
  \<^verbatim>\<open>Infinity\<close>. In between, the double is the power rounded to 53 bits, and what \<^verbatim>\<open>toString\<close>
  prints of a number that large (in radix 10 from \<open>10 ^ 21\<close> on, the exponent notation) is
  not modelled: there the model keeps the exact integer and its digits, and no statement
  about the characters of a key reaches beyond \<open>2 ^ 53\<close>.
\<close>

definition pow :: "nat \<Rightarrow> nat \<Rightarrow> number" where
  "pow b e = (if b ^ e < 2 ^ 1024 then Finite (b ^ e) else Infinity)"

text \<open>
  \<^verbatim>\<open>Math.floor(Math.random() * choices)\<close>. The value of \<^verbatim>\<open>Math.random()\<close> is below 1, so for a
  finite number \<open>n\<close> of choices the product, rounded and floored, is an integer from 0 to
  \<open>n - 1\<close>; which of them it is is the draw's affair, and the model takes \<open>rnd mod n\<close>.
  For \<^verbatim>\<open>Infinity\<close> the product is \<^verbatim>\<open>NaN\<close> when \<^verbatim>\<open>Math.random()\<close> is 0 and \<^verbatim>\<open>Infinity\<close>
  otherwise.
\<close>

definition floorRandom :: "number \<Rightarrow> nat \<Rightarrow> number" where
  "floorRandom c rnd =
     (case c of
        Finite n \<Rightarrow> Finite (if n = 0 then 0 else rnd mod n)
      | Infinity \<Rightarrow> if rnd = 0 then NaN else Infinity
      | NaN \<Rightarrow> NaN)"

text \<open>The digit characters of \<^verbatim>\<open>Number.prototype.toString(radix)\<close>: \<^verbatim>\<open>0-9\<close>, then \<^verbatim>\<open>a-z\<close>.\<close>

definition digitChar :: "nat \<Rightarrow> char" where
  "digitChar d = (if d < 10 then char_of (48 + d) else char_of (87 + d))"

function toStringRadix :: "nat \<Rightarrow> nat \<Rightarrow> string" where
  "toStringRadix radix n =
     (if radix < 2 \<or> n < radix then [digitChar n]
      else toStringRadix radix (n div radix) @ [digitChar (n mod radix)])"
  by pat_completeness auto
termination
  by (relation "measure snd") auto

declare toStringRadix.simps [simp del]

definition padStart :: "nat \<Rightarrow> char \<Rightarrow> string \<Rightarrow> string" where
  "padStart targetLength c s = replicate (targetLength - length s) c @ s"

text \<open>
  \<^verbatim>\<open>parseInt(chr, radix)\<close> on a one-character string: the value of the digit (either case),
  or \<^verbatim>\<open>NaN\<close> (here \<open>None\<close>) when the character is no digit of that radix.
\<close>

definition digitVal :: "char \<Rightarrow> nat option" where
  "digitVal c =
     (let v = (of_char c :: nat)
      in if 48 \<le> v \<and> v \<le> 57 then Some (v - 48)
         else if 97 \<le> v \<and> v \<le> 122 then Some (v - 87)
         else if 65 \<le> v \<and> v \<le> 90 then Some (v - 55)
         else None)"

definition parseInt :: "char \<Rightarrow> nat \<Rightarrow> nat option" where
  "parseInt chr radix =
     (case digitVal chr of
        None \<Rightarrow> None
      | Some d \<Rightarrow> if d < radix then Some d else None)"

text \<open>
  \<^verbatim>\<open>keyChars[i]\<close> is \<^verbatim>\<open>undefined\<close> when \<open>i\<close> is \<^verbatim>\<open>NaN\<close> or out of range, and
  \<^verbatim>\<open>join('')\<close> writes \<^verbatim>\<open>undefined\<close> as the empty string.
\<close>

definition pick :: "string \<Rightarrow> char \<Rightarrow> string" where
  "pick chars chr =
     (case parseInt chr (length chars) of
        None \<Rightarrow> []
      | Some i \<Rightarrow> if i < length chars then [chars ! i] else [])"

text \<open>
  \<^verbatim>\<open>x.toString(radix)\<close> for a radix from 2 to 36: the digits of an integer, and the names of
  the two other numbers whatever the radix.
\<close>

definition numToString :: "nat \<Rightarrow> number \<Rightarrow> string" where
  "numToString radix x =
     (case x of
        Finite k \<Rightarrow> toStringRadix radix k
      | Infinity \<Rightarrow> ''Infinity''
      | NaN \<Rightarrow> ''NaN'')"

text \<open>
  \<^verbatim>\<open>toString(radix)\<close> throws a \<^verbatim>\<open>RangeError\<close> unless \<open>2 \<le> radix \<le> 36\<close>; the two
  statements before it have no effect of their own.
\<close>

definition randomKey :: "string \<Rightarrow> nat \<Rightarrow> nat \<Rightarrow> error + string" where
  "randomKey chars len rnd =
     (let radix = length chars;
          c = pow radix len;
          x = floorRandom c rnd
      in if radix < 2 \<or> 36 < radix then Inl RangeError
         else Inr (concat (map (pick chars) (padStart len (CHR ''0'') (numToString radix x)))))"

text \<open>
  \<open>digitsBelow radix s\<close>: every character of \<open>s\<close> is a digit character of a value below
  \<open>radix\<close>.
\<close>

definition digitsBelow :: "nat \<Rightarrow> string \<Rightarrow> bool" where
  "digitsBelow radix s = (\<forall>c \<in> set s. \<exists>d < radix. c = digitChar d)"

text \<open>
  The \<open>l\<close> low digits of \<open>n\<close> in base \<open>b\<close>, most significant first: the values of
  the characters of \<^verbatim>\<open>n.toString(b).padStart(l, '0')\<close> when \<open>n < b ^ l\<close>.
\<close>

fun digs :: "nat \<Rightarrow> nat \<Rightarrow> nat \<Rightarrow> nat list" where
  "digs b 0 n = []"
| "digs b (Suc l) n = digs b l (n div b) @ [n mod b]"

section \<open>Allocating a code\<close>

text \<open>
  The loop of both \<^verbatim>\<open>generate\<close> handlers:
  \<^verbatim>\<open>
  do {
    key = randomKey();
    if (attempts > keys.size) { fail with 503 "Can't generate more keys" }
    attempts++;
  } while (keys.has(key));
  \<close>
  \<open>rnd i\<close> is the random number of the \<open>i\<close>-th call of \<^verbatim>\<open>randomKey\<close> (counted from 0);
  each iteration makes exactly one call, so the call of an iteration has the index
  \<open>attempts\<close>. \<open>has\<close> is \<^verbatim>\<open>keys.has\<close> and \<open>ksize\<close> is \<^verbatim>\<open>keys.size\<close>; neither changes while
  the loop runs. The result carries the number of calls of \<^verbatim>\<open>randomKey\<close> made. The 503
  failure is \<^verbatim>\<open>ctx.throw(Status.ServiceUnavailable, ...)\<close> in \<^verbatim>\<open>index.js\<close> and a returned
  \<^verbatim>\<open>Response\<close> with status 503 in the other program; the handlers below translate it.
\<close>

definition cantGenerate :: error where
  "cantGenerate = HttpError 503 (Some ''Can't generate more keys'')"

function allocLoop ::
  "string \<Rightarrow> nat \<Rightarrow> (nat \<Rightarrow> nat) \<Rightarrow> (string \<Rightarrow> bool) \<Rightarrow> nat \<Rightarrow> nat \<Rightarrow> (error + string) \<times> nat"
where
  "allocLoop chars len rnd has ksize attempts =
     (case randomKey chars len (rnd attempts) of
        Inl e \<Rightarrow> (Inl e, Suc attempts)
      | Inr key \<Rightarrow>
          if attempts > ksize then (Inl cantGenerate, Suc attempts)
          else if has key then allocLoop chars len rnd has ksize (Suc attempts)
          else (Inr key, Suc attempts))"
  by pat_completeness auto
termination
  by (relation "measure (\<lambda>(chars, len, rnd, has, ksize, attempts). Suc ksize - attempts)") auto

declare allocLoop.simps [simp del]

text \<open>
  The loop as the handlers enter it: \<^verbatim>\<open>attempts = 0\<close>, with \<^verbatim>\<open>keys.has\<close> and \<^verbatim>\<open>keys.size\<close>
  of the current \<^verbatim>\<open>keys\<close> map.
\<close>

definition allocate ::
  "string \<Rightarrow> nat \<Rightarrow> (nat \<Rightarrow> nat) \<Rightarrow> (string \<rightharpoonup> 'i) \<Rightarrow> (error + string) \<times> nat"
where
  "allocate chars len rnd ks =
     allocLoop chars len rnd (\<lambda>k. ks k \<noteq> None) (card (dom ks)) 0"

text \<open>The code the \<open>i\<close>-th call of \<^verbatim>\<open>randomKey\<close> returns (counted from 0).\<close>

definition candidate :: "string \<Rightarrow> nat \<Rightarrow> (nat \<Rightarrow> nat) \<Rightarrow> nat \<Rightarrow> string" where
  "candidate chars len rnd i =
     (case randomKey chars len (rnd i) of Inl e \<Rightarrow> [] | Inr key \<Rightarrow> key)"

text \<open>A source of random numbers that always gives 0.\<close>

definition zeroes :: "nat \<Rightarrow> nat" where
  "zeroes i = 0"

section \<open>Requests, responses and session records\<close>

type_synonym bytes = "8 word list"

datatype content = NoContent | Text string | Json bool string | Data bytes

record response =
  status :: nat
  body :: content
  headers :: "(string \<times> string) list"

text \<open>
  The \<^verbatim>\<open>info\<close> object of a session. JavaScript compares objects by identity
  (\<^verbatim>\<open>keys.get(key) === info\<close>); the field \<open>ident\<close> is that identity, taken from a counter
  when the object is created. \<^verbatim>\<open>created\<close> is the time of creation.
\<close>

record info =
  ident :: nat
  created :: nat
  agent :: string
  urls :: "string list"

text \<open>
  What both programs share of their state: the \<^verbatim>\<open>keys\<close> map, the callbacks armed with
  \<^verbatim>\<open>setTimeout\<close> that have not fired yet (each with the \<^verbatim>\<open>key\<close> and the \<^verbatim>\<open>info\<close> object its
  closure captured), the counter of object identities, and the time each callback is due:
  \<^verbatim>\<open>setTimeout(f, d)\<close> called at the time \<open>now\<close> makes \<open>f\<close> due at \<open>now + d\<close>. A callback is
  known by the identity of the \<^verbatim>\<open>info\<close> object of its closure, and \<open>deadline\<close> is read for
  pending callbacks only.
\<close>

record 'i registry =
  keys :: "string \<rightharpoonup> 'i"
  pending :: "(string \<times> nat) list"
  fresh :: nat
  deadline :: "nat \<Rightarrow> nat"

definition orEmpty :: "string option \<Rightarrow> string" where
  "orEmpty v = (case v of None \<Rightarrow> [] | Some x \<Rightarrow> x)"

text \<open>
  A string of the model is a list of code units below 256, which is what the value of an
  HTTP header is. \<^verbatim>\<open>toLowerCase\<close> maps \<^verbatim>\<open>A-Z\<close> and the capital letters from U+00C0 to U+00DE
  (not the multiplication sign U+00D7) to the letter 32 code units above, and keeps every
  other code unit.
\<close>

definition lowerChar :: "char \<Rightarrow> char" where
  "lowerChar c =
     (let v = (of_char c :: nat)
      in if (65 \<le> v \<and> v \<le> 90) \<or> (192 \<le> v \<and> v \<le> 222 \<and> v \<noteq> 215) then char_of (v + 32)
         else c)"

definition toLowerCase :: "string \<Rightarrow> string" where
  "toLowerCase s = map lowerChar s"

text \<open>
  \<^verbatim>\<open>toUpperCase\<close> maps \<^verbatim>\<open>a-z\<close> and the small letters from U+00E0 to U+00FE (not the division
  sign U+00F7) to the letter 32 code units below, and the sharp s U+00DF to \<^verbatim>\<open>SS\<close>. The micro
  sign U+00B5 and the y with diaeresis U+00FF become U+039C and U+0178, which are no code
  units of the model: for them \<open>upperUnits\<close> is \<open>None\<close>, and so is \<open>toUpperCase\<close> for a string
  that holds one of them; the result is then a string that is not empty and equals no string
  of the model.
\<close>

definition upperUnits :: "char \<Rightarrow> string option" where
  "upperUnits c =
     (let v = (of_char c :: nat)
      in if v = 181 \<or> v = 255 then None
         else if v = 223 then Some ''SS''
         else if (97 \<le> v \<and> v \<le> 122) \<or> (224 \<le> v \<and> v \<le> 254 \<and> v \<noteq> 247)
              then Some [char_of (v - 32)]
         else Some [c])"

fun toUpperCase :: "string \<Rightarrow> string option" where
  "toUpperCase [] = Some []"
| "toUpperCase (c # cs) =
     (case upperUnits c of
        None \<Rightarrow> None
      | Some u \<Rightarrow> (case toUpperCase cs of None \<Rightarrow> None | Some r \<Rightarrow> Some (u @ r)))"

definition removeAt :: "nat \<Rightarrow> 'a list \<Rightarrow> 'a list" where
  "removeAt i xs = take i xs @ drop (Suc i) xs"

section \<open>The program that keeps uploads in memory (\<^verbatim>\<open>src/unnamed/part_000\<close>)\<close>

text \<open>
  A \<^verbatim>\<open>File\<close> of the form data, and an entry of the \<^verbatim>\<open>files\<close> map, which stores the same
  three values.
\<close>

record blob =
  data :: bytes
  name :: string
  type :: string

record info2 = info +
  fileId :: "string option"

record state2 = "info2 registry" +
  files :: "string \<rightharpoonup> blob"

text \<open>A value of \<^verbatim>\<open>formData.get\<close>: a string or a \<^verbatim>\<open>File\<close>.\<close>

datatype formvalue = FString string | FFile blob

text \<open>
  The body of an upload request: absent, not parseable as form data (\<^verbatim>\<open>req.formData()\<close>
  throws with the given message), or a form with its \<^verbatim>\<open>key\<close> and \<^verbatim>\<open>file\<close> entries.
\<close>

datatype reqbody = NoBody | BadForm string | Form "formvalue option" "formvalue option"

definition jsonResponse :: "nat \<Rightarrow> bool \<Rightarrow> string \<Rightarrow> response" where
  "jsonResponse st ok msg =
     \<lparr>status = st, body = Json ok msg, headers = [(''Content-Type'', ''application/json'')]\<rparr>"

definition textResponse :: "nat \<Rightarrow> string \<Rightarrow> response" where
  "textResponse st msg = \<lparr>status = st, body = Text msg, headers = []\<rparr>"

text \<open>\<^verbatim>\<open>name.split('.').pop()\<close>: what follows the last dot, the whole name when it has none.\<close>

definition lastSegment :: "string \<Rightarrow> string" where
  "lastSegment s = rev (takeWhile (\<lambda>c. c \<noteq> CHR ''.'') (rev s))"

definition formToString :: "formvalue \<Rightarrow> string" where
  "formToString v = (case v of FString x \<Rightarrow> x | FFile f \<Rightarrow> ''[object File]'')"

text \<open>
  \<^verbatim>\<open>router.post("/api/generate")\<close>. The request gives the \<^verbatim>\<open>user-agent\<close> header, the clock
  gives \<open>now\<close>. A handler runs from its first statement to its last without another
  handler or callback in between.
\<close>

definition generate2 ::
  "string \<Rightarrow> nat \<Rightarrow> (nat \<Rightarrow> nat) \<Rightarrow> string option \<Rightarrow> nat \<Rightarrow> state2 \<Rightarrow> (error + response) \<times> state2"
where
  "generate2 chars len rnd ua now s =
     (case fst (allocate chars len rnd (keys s)) of
        Inl (HttpError st msg) \<Rightarrow> (Inr (textResponse st (orEmpty msg)), s)
      | Inl e \<Rightarrow> (Inl e, s)
      | Inr key \<Rightarrow>
          (let i = \<lparr>ident = fresh s, created = now, agent = orEmpty ua, urls = [],
                     fileId = None\<rparr>
           in (Inr (textResponse 200 key),
               s\<lparr>keys := (keys s)(key \<mapsto> i),
                  pending := pending s @ [(key, fresh s)],
                  fresh := Suc (fresh s),
                  deadline := (deadline s)(fresh s := now + maxExpireDuration * 1000)\<rparr>)))"

text \<open>
  The callback armed by \<^verbatim>\<open>setTimeout\<close> in \<^verbatim>\<open>/api/generate\<close>. Its closure holds \<^verbatim>\<open>key\<close>;
  the \<^verbatim>\<open>info\<close> it uses is the one it reads from \<^verbatim>\<open>keys\<close> when it runs.
\<close>

definition expire2 :: "string \<Rightarrow> state2 \<Rightarrow> state2" where
  "expire2 key s =
     (case keys s key of
        None \<Rightarrow> s
      | Some i \<Rightarrow>
          (let fs = (case fileId i of
                       None \<Rightarrow> files s
                     | Some fid \<Rightarrow>
                         if fid \<noteq> [] \<and> files s fid \<noteq> None then (files s)(fid := None)
                         else files s)
           in s\<lparr>keys := (keys s)(key := None), files := fs\<rparr>))"

text \<open>
  \<^verbatim>\<open>router.post("/api/upload")\<close>; \<open>uuid\<close> is the value of \<^verbatim>\<open>crypto.randomUUID()\<close>. Every
  \<^verbatim>\<open>throw\<close> is caught by the handler's own \<^verbatim>\<open>catch\<close>, which answers 400 with the message.
  A \<^verbatim>\<open>key\<close> that is missing and one whose upper case is no string of the model are both
  \<open>None\<close>: the first is \<^verbatim>\<open>undefined\<close>, the second is in no \<^verbatim>\<open>keys\<close> map, and the handler
  throws "Invalid key" for either.
\<close>

definition upload2 :: "reqbody \<Rightarrow> string \<Rightarrow> state2 \<Rightarrow> response \<times> state2" where
  "upload2 rb uuid s =
     (case rb of
        NoBody \<Rightarrow> (jsonResponse 400 False ''No body provided'', s)
      | BadForm msg \<Rightarrow> (jsonResponse 400 False msg, s)
      | Form k f \<Rightarrow>
          (let key = (case k of None \<Rightarrow> None | Some v \<Rightarrow> toUpperCase (formToString v))
           in if key = None \<or> key = Some [] \<or> keys s (the key) = None
              then (jsonResponse 400 False ''Invalid key'', s)
              else (case f of
                      None \<Rightarrow> (jsonResponse 400 False ''No file uploaded'', s)
                    | Some (FString x) \<Rightarrow> (jsonResponse 400 False ''No file uploaded'', s)
                    | Some (FFile file) \<Rightarrow>
                        (let fileExt = toLowerCase (lastSegment (name file))
                         in if fileExt = [] \<or> fileExt \<notin> set allowedExtensions
                            then (jsonResponse 400 False ''Invalid file type'', s)
                            else (let i = the (keys s (the key))
                                  in (jsonResponse 200 True ''File uploaded successfully'',
                                      s\<lparr>keys := (keys s)(the key \<mapsto> i\<lparr>fileId := Some uuid\<rparr>),
                                         files := (files s)(uuid \<mapsto>
                                           \<lparr>data = data file, name = name file,
                                            type = type file\<rparr>)\<rparr>))))))"

text \<open>\<^verbatim>\<open>router.get("/api/download/:key")\<close>.\<close>

definition notFound2 :: response where
  "notFound2 = textResponse 404 ''File not found''"

definition download2 :: "string \<Rightarrow> state2 \<Rightarrow> response" where
  "download2 key s =
     (if key = [] \<or> keys s key = None then notFound2
      else (let i = the (keys s key)
            in if fileId i = None \<or> fileId i = Some [] \<or> files s (the (fileId i)) = None
               then notFound2
               else (let file = the (files s (the (fileId i)))
                     in \<lparr>status = 200, body = Data (data file),
                         headers = [(''Content-Type'', type file),
                           (''Content-Disposition'',
                            ''attachment; filename=\"'' @ name file @ ''\"'')]\<rparr>)))"

text \<open>
  What can happen to the program: a request to one of the three routes, or one of the
  armed callbacks fires (the \<open>n\<close>-th of those pending, which then is pending no longer).
\<close>

datatype event2 =
    Generate2 "nat \<Rightarrow> nat" "string option" nat
  | Upload2 reqbody string
  | Download2 string
  | Fire2 nat

definition fire2 :: "nat \<Rightarrow> state2 \<Rightarrow> state2" where
  "fire2 n s =
     (if n < length (pending s)
      then expire2 (fst (pending s ! n)) (s\<lparr>pending := removeAt n (pending s)\<rparr>)
      else s)"

fun step2 :: "string \<Rightarrow> nat \<Rightarrow> state2 \<Rightarrow> event2 \<Rightarrow> state2" where
  "step2 chars len s (Generate2 rnd ua now) = snd (generate2 chars len rnd ua now s)"
| "step2 chars len s (Upload2 rb uuid) = snd (upload2 rb uuid s)"
| "step2 chars len s (Download2 key) = s"
| "step2 chars len s (Fire2 n) = fire2 n s"

definition init2 :: state2 where
  "init2 = \<lparr>keys = Map.empty, pending = [], fresh = 0,
  deadline = (\<lambda>n. 0), files = Map.empty\<rparr>"

definition run2 :: "string \<Rightarrow> nat \<Rightarrow> event2 list \<Rightarrow> state2" where
  "run2 chars len evs = foldl (step2 chars len) init2 evs"

section \<open>The program that keeps uploads on disk (\<^verbatim>\<open>src/index.js\<close>)\<close>

text \<open>
  The functions this program imports from the Deno standard library are parameters of the
  model: \<^verbatim>\<open>extname\<close> and \<^verbatim>\<open>join\<close> of \<^verbatim>\<open>std/path\<close>, and \<^verbatim>\<open>contentType\<close> of
  \<^verbatim>\<open>std/media_types\<close> (here \<open>mediaType\<close>). So is the outcome of
  \<^verbatim>\<open>Deno.open(path, { write: true, create: true })\<close>, which depends on the directories there
  are, and the program creates none after it has started: \<open>openFails\<close> gives the message
  of the error thrown for a path, \<open>None\<close> for a path that can be opened.
\<close>

record pathlib =
  extname :: "string \<Rightarrow> string"
  join :: "string \<Rightarrow> string \<Rightarrow> string"
  mediaType :: "string \<Rightarrow> string"
  openFails :: "string \<Rightarrow> string option"

text \<open>An entry of \<^verbatim>\<open>data.files\<close>, and the object \<^verbatim>\<open>handleUpload\<close> returns for it.\<close>

record formfile =
  filename :: string
  content :: bytes
  contentType :: string

record upfile =
  up_filename :: string
  path :: string
  up_type :: string

text \<open>The field \<^verbatim>\<open>file\<close> of \<^verbatim>\<open>info\<close> is \<open>ufile\<close> here.\<close>

record info1 = info +
  ufile :: "upfile option"
  timer :: "nat option"

text \<open>The directory of uploads is a map from paths to the bytes of the file at that path.\<close>

record state1 = "info1 registry" +
  disk :: "string \<rightharpoonup> bytes"

datatype reqbody1 = NotFormData | FormData "formfile list"

text \<open>
  Writing to a file opened with \<^verbatim>\<open>{ write: true, create: true }\<close>: the new bytes replace the
  old ones from the start of the file, which is not truncated.
\<close>

definition overwrite :: "bytes option \<Rightarrow> bytes \<Rightarrow> bytes" where
  "overwrite old new = (case old of None \<Rightarrow> new | Some b \<Rightarrow> new @ drop (length new) b)"

definition badRequest :: "string \<Rightarrow> error" where
  "badRequest msg = HttpError 400 (Some msg)"

text \<open>The path \<^verbatim>\<open>handleUpload\<close> writes to: \<^verbatim>\<open>join("uploads", `${uuid}-${file.filename}`)\<close>.\<close>

definition uploadPath :: "pathlib \<Rightarrow> string \<Rightarrow> formfile \<Rightarrow> string" where
  "uploadPath lib uuid f = join lib ''uploads'' (uuid @ ''-'' @ filename f)"

definition handleUpload ::
  "pathlib \<Rightarrow> reqbody1 \<Rightarrow> string \<Rightarrow> (string \<rightharpoonup> bytes) \<Rightarrow> (error + upfile) \<times> (string \<rightharpoonup> bytes)"
where
  "handleUpload lib rb uuid d =
     (case rb of
        NotFormData \<Rightarrow> (Inl (badRequest ''Expected multipart form data''), d)
      | FormData fs \<Rightarrow>
          (case fs of
             [] \<Rightarrow> (Inl (badRequest ''No file uploaded''), d)
           | f # rest \<Rightarrow>
               (let fileExt = drop 1 (toLowerCase (extname lib (filename f)))
                in if fileExt \<notin> set allowedExtensions
                   then (Inl (badRequest ''Invalid file type''), d)
                   else (let p = uploadPath lib uuid f
                         in case openFails lib p of
                              Some msg \<Rightarrow> (Inl (Error msg), d)
                            | None \<Rightarrow>
                                (Inr \<lparr>up_filename = filename f, path = p,
                                      up_type = contentType f\<rparr>,
                                 d(p \<mapsto> overwrite (d p) (content f)))))))"

text \<open>\<^verbatim>\<open>err.message\<close> of what the \<^verbatim>\<open>catch\<close> of the upload route receives.\<close>

definition message :: "error \<Rightarrow> string" where
  "message e =
     (case e of
        HttpError st msg \<Rightarrow> orEmpty msg
      | Error msg \<Rightarrow> msg
      | TypeError msg \<Rightarrow> msg
      | RangeError \<Rightarrow> ''RangeError''
      | DenoNotFound \<Rightarrow> ''NotFound'')"

definition failed1 :: "error \<Rightarrow> response" where
  "failed1 e = \<lparr>status = 400, body = Json False (message e), headers = []\<rparr>"

text \<open>
  \<^verbatim>\<open>Deno.remove(info.file.path)\<close> inside its own \<^verbatim>\<open>try\<close>, when \<^verbatim>\<open>info.file?.path\<close> is
  truthy: the file is gone afterwards; the error for a path that does not exist is logged
  and dropped.
\<close>

definition removeFile :: "upfile option \<Rightarrow> (string \<rightharpoonup> bytes) \<Rightarrow> (string \<rightharpoonup> bytes)" where
  "removeFile f d =
     (case f of
        None \<Rightarrow> d
      | Some old \<Rightarrow> if path old \<noteq> [] then d(path old := None) else d)"

text \<open>
  \<^verbatim>\<open>router.post("/upload")\<close>: \<open>kh\<close> is the \<^verbatim>\<open>key\<close> header. \<^verbatim>\<open>handleUpload\<close> runs first; what it
  wrote stays written when a later statement throws.
\<close>

definition upload1 ::
  "pathlib \<Rightarrow> reqbody1 \<Rightarrow> string option \<Rightarrow> string \<Rightarrow> state1 \<Rightarrow> response \<times> state1"
where
  "upload1 lib rb kh uuid s =
     (case handleUpload lib rb uuid (disk s) of
        (Inl e, d) \<Rightarrow> (failed1 e, s\<lparr>disk := d\<rparr>)
      | (Inr f, d) \<Rightarrow>
          (let key = (case kh of None \<Rightarrow> None | Some v \<Rightarrow> toUpperCase v)
           in if key = None \<or> key = Some [] \<or> keys s (the key) = None
              then (failed1 (badRequest ''Invalid key''), s\<lparr>disk := d\<rparr>)
              else (let i = the (keys s (the key))
                    in (\<lparr>status = 200, body = Json True ''File uploaded successfully'',
                         headers = []\<rparr>,
                        s\<lparr>keys := (keys s)(the key \<mapsto> i\<lparr>ufile := Some f\<rparr>),
                           disk := removeFile (ufile i) d\<rparr>))))"

text \<open>\<^verbatim>\<open>router.post("/generate")\<close>; \<^verbatim>\<open>ctx.throw\<close> leaves the handler with the error.\<close>

definition generate1 ::
  "string \<Rightarrow> nat \<Rightarrow> (nat \<Rightarrow> nat) \<Rightarrow> string option \<Rightarrow> nat \<Rightarrow> state1 \<Rightarrow> (error + response) \<times> state1"
where
  "generate1 chars len rnd ua now s =
     (case fst (allocate chars len rnd (keys s)) of
        Inl e \<Rightarrow> (Inl e, s)
      | Inr key \<Rightarrow>
          (let i = \<lparr>ident = fresh s, created = now, agent = orEmpty ua, urls = [],
                     ufile = None, timer = Some (fresh s)\<rparr>
           in (Inr \<lparr>status = 200, body = Text key, headers = []\<rparr>,
               s\<lparr>keys := (keys s)(key \<mapsto> i),
                  pending := pending s @ [(key, fresh s)],
                  fresh := Suc (fresh s),
                  deadline := (deadline s)(fresh s := now + maxExpireDuration * 1000)\<rparr>)))"

text \<open>
  The callback armed in \<^verbatim>\<open>/generate\<close>. Its closure holds \<^verbatim>\<open>key\<close> and the object \<^verbatim>\<open>info\<close>
  (here its identity \<open>idn\<close>); inside the guard \<^verbatim>\<open>keys.get(key) === info\<close> the closure's
  object is the stored one.
\<close>

definition expire1 :: "string \<Rightarrow> nat \<Rightarrow> state1 \<Rightarrow> state1" where
  "expire1 key idn s =
     (case keys s key of
        None \<Rightarrow> s
      | Some i \<Rightarrow>
          if ident i = idn
          then s\<lparr>keys := (keys s)(key := None), disk := removeFile (ufile i) (disk s)\<rparr>
          else s)"

text \<open>
  \<^verbatim>\<open>router.get("/:filename")\<close>: \<open>k\<close> is the \<^verbatim>\<open>key\<close> query parameter. \<^verbatim>\<open>Deno.open\<close> fails for
  a path that does not exist. The handler then calls \<^verbatim>\<open>copy(file, ctx.response.body)\<close> with a
  body that was never assigned: the first \<^verbatim>\<open>write\<close> on it throws a \<^verbatim>\<open>TypeError\<close>, and only for
  an empty file, where nothing is written, the handler ends, with the headers set and no
  body, which the framework answers with status 404.
\<close>

definition notFound1 :: error where
  "notFound1 = HttpError 404 None"

definition download1 :: "pathlib \<Rightarrow> string option \<Rightarrow> state1 \<Rightarrow> error + response" where
  "download1 lib k s =
     (if k = None \<or> k = Some [] \<or> keys s (the k) = None then Inl notFound1
      else (let i = the (keys s (the k))
            in case ufile i of
                 None \<Rightarrow> Inl notFound1
               | Some f \<Rightarrow>
                   (case disk s (path f) of
                      None \<Rightarrow> Inl DenoNotFound
                    | Some b \<Rightarrow>
                        if b \<noteq> []
                        then Inl (TypeError
                               ''Cannot read properties of undefined (reading 'write')'')
                        else Inr \<lparr>status = 404, body = NoContent,
                               headers = [(''Content-Type'', mediaType lib (extname lib (path f))),
                                 (''Content-Disposition'',
                                  ''attachment; filename=\"'' @ up_filename f @ ''\"'')]\<rparr>)))"

datatype event1 =
    Generate1 "nat \<Rightarrow> nat" "string option" nat
  | Upload1 reqbody1 "string option" string
  | Download1 "string option"
  | Fire1 nat

definition fire1 :: "nat \<Rightarrow> state1 \<Rightarrow> state1" where
  "fire1 n s =
     (if n < length (pending s)
      then expire1 (fst (pending s ! n)) (snd (pending s ! n))
             (s\<lparr>pending := removeAt n (pending s)\<rparr>)
      else s)"

fun step1 :: "pathlib \<Rightarrow> string \<Rightarrow> nat \<Rightarrow> state1 \<Rightarrow> event1 \<Rightarrow> state1" where
  "step1 lib chars len s (Generate1 rnd ua now) = snd (generate1 chars len rnd ua now s)"
| "step1 lib chars len s (Upload1 rb kh uuid) = snd (upload1 lib rb kh uuid s)"
| "step1 lib chars len s (Download1 k) = s"
| "step1 lib chars len s (Fire1 n) = fire1 n s"

definition init1 :: state1 where
  "init1 = \<lparr>keys = Map.empty, pending = [], fresh = 0,
  deadline = (\<lambda>n. 0), disk = Map.empty\<rparr>"

definition run1 :: "pathlib \<Rightarrow> string \<Rightarrow> nat \<Rightarrow> event1 list \<Rightarrow> state1" where
  "run1 lib chars len evs = foldl (step1 lib chars len) init1 evs"

section \<open>The sessions and the pending callbacks\<close>

text \<open>
  A state is consistent when the pending callbacks have distinct codes, the session a
  callback was armed for is the one stored under its code, and every stored session has its
  callback pending.
\<close>

definition consistent :: "(('a info_scheme), 'b) registry_scheme \<Rightarrow> bool" where
  "consistent s \<longleftrightarrow>
     distinct (map fst (pending s)) \<and>
     (\<forall>p \<in> set (pending s). \<exists>i. keys s (fst p) = Some i \<and> ident i = snd p) \<and>
     (\<forall>k i. keys s k = Some i \<longrightarrow> (k, ident i) \<in> set (pending s))"

section \<open>The clock\<close>

text \<open>
  The runtime runs a callback once its deadline has come: the callbacks in the order of their
  deadlines, those of one deadline in the order they were armed. \<open>nextDue t s\<close> is the place,
  among the pending callbacks, of the one to run next at the time \<open>t\<close>, if one is due.
\<close>

definition nextDue :: "nat \<Rightarrow> ('i, 'b) registry_scheme \<Rightarrow> nat option" where
  "nextDue t s =
     (let ps = pending s; d = (\<lambda>n. deadline s (snd (ps ! n)))
      in case filter (\<lambda>n. d n \<le> t \<and> list_all (\<lambda>m. d n \<le> d m) [0..<length ps])
                [0..<length ps] of
           [] \<Rightarrow> None
         | n # ns \<Rightarrow> Some n)"

text \<open>
  Advancing the clock to the time \<open>t\<close>, with no request in between: callbacks run until none
  is due. Each run takes one callback from those pending, so this ends.
\<close>

function advance2 :: "nat \<Rightarrow> state2 \<Rightarrow> state2" where
  "advance2 t s = (case nextDue t s of None \<Rightarrow> s | Some n \<Rightarrow> advance2 t (fire2 n s))"
  by pat_completeness auto
termination
proof (relation "measure (\<lambda>(t, s). length (pending s))")
  show "wf (measure (\<lambda>(t, s). length (pending s)))" by simp
next
  fix t :: nat and s :: state2 and n
  assume "nextDue t s = Some n"
  then obtain ns P where "filter P [0..<length (pending s)] = n # ns"
    by (auto simp: nextDue_def Let_def split: list.splits)
  then have "n \<in> set (filter P [0..<length (pending s)])" by simp
  then have n: "n < length (pending s)" by simp
  have "pending (fire2 n s) = removeAt n (pending s)"
    using n by (simp add: fire2_def expire2_def Let_def split: option.split)
  then have "length (pending (fire2 n s)) < length (pending s)"
    using n by (simp add: removeAt_def)
  then show "((t, fire2 n s), (t, s)) \<in> measure (\<lambda>(t, s). length (pending s))" by simp
qed

function advance1 :: "nat \<Rightarrow> state1 \<Rightarrow> state1" where
  "advance1 t s = (case nextDue t s of None \<Rightarrow> s | Some n \<Rightarrow> advance1 t (fire1 n s))"
  by pat_completeness auto
termination
proof (relation "measure (\<lambda>(t, s). length (pending s))")
  show "wf (measure (\<lambda>(t, s). length (pending s)))" by simp
next
  fix t :: nat and s :: state1 and n
  assume "nextDue t s = Some n"
  then obtain ns P where "filter P [0..<length (pending s)] = n # ns"
    by (auto simp: nextDue_def Let_def split: list.splits)
  then have "n \<in> set (filter P [0..<length (pending s)])" by simp
  then have n: "n < length (pending s)" by simp
  have "pending (fire1 n s) = removeAt n (pending s)"
    using n by (simp add: fire1_def expire1_def split: option.split)
  then have "length (pending (fire1 n s)) < length (pending s)"
    using n by (simp add: removeAt_def)
  then show "((t, fire1 n s), (t, s)) \<in> measure (\<lambda>(t, s). length (pending s))" by simp
qed

declare advance2.simps [simp del]
declare advance1.simps [simp del]

text \<open>
  A state is timed when every stored session was given an identity by the counter and its
  callback is due \<^verbatim>\<open>maxExpireDuration * 1000\<close> milliseconds after the session was created.
\<close>

definition timed :: "(('a info_scheme), 'b) registry_scheme \<Rightarrow> bool" where
  "timed s \<longleftrightarrow>
     (\<forall>k i. keys s k = Some i \<longrightarrow>
        ident i < fresh s \<and> deadline s (ident i) = created i + maxExpireDuration * 1000)"

section \<open>Sample inputs\<close>

text \<open>A source of random numbers that always gives 1.\<close>

definition ones :: "nat \<Rightarrow> nat" where
  "ones i = 1"

text \<open>
  An instance of the library functions, for running the program on file names. The extension
  of a path is that of its last part (what follows the last slash, slashes at the end left
  aside): what follows the last dot of that part, with the dot; it is empty for a part
  without a dot, for a part whose only dot comes first and for the part \<^verbatim>\<open>..\<close>. Two parts of
  a path are joined by a slash (the names used below have nothing for \<^verbatim>\<open>join\<close> to
  normalise). The directory \<^verbatim>\<open>uploads\<close> holds no directory, so a path with a slash after
  \<^verbatim>\<open>uploads/\<close> cannot be opened.
\<close>

definition baseName :: "string \<Rightarrow> string" where
  "baseName p =
     rev (takeWhile (\<lambda>c. c \<noteq> CHR ''/'') (dropWhile (\<lambda>c. c = CHR ''/'') (rev p)))"

definition plainExt :: "string \<Rightarrow> string" where
  "plainExt p =
     (let b = baseName p
      in if CHR ''.'' \<notin> set b \<or> b = ''..'' \<or> length (lastSegment b) + 1 = length b then []
         else CHR ''.'' # lastSegment b)"

definition plainlib :: pathlib where
  "plainlib =
     \<lparr>extname = plainExt,
      join = (\<lambda>a b. a @ ''/'' @ b),
      mediaType = (\<lambda>e. ''application/octet-stream''),
      openFails = (\<lambda>p. if CHR ''/'' \<in> set (drop 8 p)
                          then Some ''No such file or directory (os error 2)'' else None)\<rparr>"

text \<open>
  One code allocated under the reference configuration; and both codes of the two-code
  configuration (alphabet \<^verbatim>\<open>AB\<close>, length 1) allocated, in each program.
\<close>

definition oneKey2 :: state2 where
  "oneKey2 = run2 keyChars keyLength [Generate2 zeroes None 0]"

definition full2 :: state2 where
  "full2 = run2 ''AB'' 1 [Generate2 zeroes None 0, Generate2 ones None 0]"

definition full1 :: state1 where
  "full1 = run1 plainlib ''AB'' 1 [Generate1 zeroes None 0, Generate1 ones None 0]"

text \<open>The first of the two codes allocated, in each program.\<close>

definition first2 :: state2 where
  "first2 = run2 ''AB'' 1 [Generate2 zeroes None 0]"

definition first1 :: state1 where
  "first1 = run1 plainlib ''AB'' 1 [Generate1 zeroes None 0]"

text \<open>
  Two files and the form entry of the first; a session of the reference configuration with
  the first file bound, in each program; and a code that expired and was allocated again.
\<close>

definition bookA :: blob where
  "bookA = \<lparr>data = [1, 2, 3, 4, 5, 6, 7, 8, 9, 10], name = ''book.epub'',
            type = ''application/epub+zip''\<rparr>"

definition bookB :: blob where
  "bookB = \<lparr>data = [11, 12, 13], name = ''book2.pdf'', type = ''application/pdf''\<rparr>"

definition formA :: formfile where
  "formA = \<lparr>filename = ''book.epub'', content = [1, 2, 3, 4, 5, 6, 7, 8, 9, 10],
            contentType = ''application/epub+zip''\<rparr>"

definition bound2 :: state2 where
  "bound2 = run2 keyChars keyLength
     [Generate2 zeroes None 0,
      Upload2 (Form (Some (FString ''2222'')) (Some (FFile bookA))) ''id-1'']"

definition bound1 :: state1 where
  "bound1 = run1 plainlib keyChars keyLength
     [Generate1 zeroes None 0, Upload1 (FormData [formA]) (Some ''2222'') ''id-1'']"

definition realloc1 :: state1 where
  "realloc1 = run1 plainlib keyChars keyLength
     [Generate1 zeroes None 0, Fire1 0, Generate1 zeroes None 0]"

text \<open>
  The second file as a form entry, a file whose name has a directory part, and the session
  with the second file bound over the first.
\<close>

definition formB :: formfile where
  "formB = \<lparr>filename = ''book2.pdf'', content = [11, 12, 13], contentType = ''application/pdf''\<rparr>"

definition formSlash :: formfile where
  "formSlash = \<lparr>filename = ''a/b.epub'', content = [1, 2, 3],
                contentType = ''application/epub+zip''\<rparr>"

definition rebound2 :: state2 where
  "rebound2 = run2 keyChars keyLength
     [Generate2 zeroes None 0,
      Upload2 (Form (Some (FString ''2222'')) (Some (FFile bookA))) ''id-1'',
      Upload2 (Form (Some (FString ''2222'')) (Some (FFile bookB))) ''id-2'']"

definition rebound1 :: state1 where
  "rebound1 = run1 plainlib keyChars keyLength
     [Generate1 zeroes None 0, Upload1 (FormData [formA]) (Some ''2222'') ''id-1'',
      Upload1 (FormData [formB]) (Some ''2222'') ''id-2'']"

text \<open>One code allocated in the program that keeps uploads on disk, and what happens later.\<close>

definition oneKey1 :: state1 where
  "oneKey1 = run1 plainlib keyChars keyLength [Generate1 zeroes None 0]"

definition laterEvents :: "event1 list" where
  "laterEvents =
     [Fire1 0, Generate1 zeroes None 0, Upload1 (FormData [formA]) (Some ''2222'') ''id-1'',
      Fire1 0]"

text \<open>
  The state after an upload of the first file with a key that names no live code, and a file
  of the same name with three bytes.
\<close>

definition refused1 :: state1 where
  "refused1 = snd (upload1 plainlib (FormData [formA]) (Some ''zzzz'') ''id-9'' oneKey1)"

definition formShort :: formfile where
  "formShort = \<lparr>filename = ''book.epub'', content = [11, 12, 13],
                contentType = ''application/epub+zip''\<rparr>"

section \<open>Files no session refers to\<close>

text \<open>
  The path an event writes to, if it is an upload with a file; and a path that no session's
  file has.
\<close>

fun writes :: "pathlib \<Rightarrow> event1 \<Rightarrow> string option" where
  "writes lib (Upload1 (FormData (f # rest)) kh uuid) = Some (uploadPath lib uuid f)"
| "writes lib ev = None"

definition unreferenced :: "string \<Rightarrow> state1 \<Rightarrow> bool" where
  "unreferenced p s \<longleftrightarrow> (\<forall>k i f. keys s k = Some i \<and> ufile i = Some f \<longrightarrow> path f \<noteq> p)"

section \<open>Properties of the key generator\<close>

lemma toStringRadix_small: "n < radix \<Longrightarrow> toStringRadix radix n = [digitChar n]"
  by (simp add: toStringRadix.simps)

lemma toStringRadix_step:
  "2 \<le> radix \<Longrightarrow> radix \<le> n \<Longrightarrow>
   toStringRadix radix n = toStringRadix radix (n div radix) @ [digitChar (n mod radix)]"
  by (subst toStringRadix.simps) simp

lemma length_keyChars: "length keyChars = 30"
  by (simp add: keyChars_def)

lemma digitChar_0: "digitChar 0 = CHR ''0''"
proof -
  have "(of_char (CHR ''0'') :: nat) = 48" by simp
  then have "char_of (48::nat) = CHR ''0''" by (metis char_of_char)
  then show ?thesis by (simp add: digitChar_def)
qed

lemma of_char_digitChar:
  "d < 36 \<Longrightarrow> (of_char (digitChar d) :: nat) = (if d < 10 then 48 + d else 87 + d)"
  by (simp add: digitChar_def)

lemma digitVal_digitChar: "d < 36 \<Longrightarrow> digitVal (digitChar d) = Some d"
  by (simp add: digitVal_def of_char_digitChar Let_def)

lemma pick_digitChar:
  assumes "d < length chars" "length chars \<le> 36"
  shows "pick chars (digitChar d) = [chars ! d]"
  using assms by (simp add: pick_def parseInt_def digitVal_digitChar)

lemma toStringRadix_digits:
  "2 \<le> radix \<Longrightarrow> digitsBelow radix (toStringRadix radix n)"
proof (induction radix n rule: toStringRadix.induct)
  case (1 radix n)
  show ?case
  proof (cases "n < radix")
    case True
    then show ?thesis by (auto simp: toStringRadix_small digitsBelow_def)
  next
    case False
    with 1 have "digitsBelow radix (toStringRadix radix (n div radix))" by simp
    moreover have "n mod radix < radix" using 1(2) by simp
    then have "\<exists>d<radix. digitChar (n mod radix) = digitChar d" by blast
    ultimately show ?thesis
      using False 1(2) by (simp add: toStringRadix_step digitsBelow_def)
  qed
qed

lemma toStringRadix_length:
  "2 \<le> radix \<Longrightarrow> 0 < len \<Longrightarrow> n < radix ^ len \<Longrightarrow> length (toStringRadix radix n) \<le> len"
proof (induction len arbitrary: n)
  case 0
  then show ?case by simp
next
  case (Suc len)
  show ?case
  proof (cases "n < radix")
    case True
    then show ?thesis by (simp add: toStringRadix_small)
  next
    case False
    then have len: "0 < len" using Suc.prems by (cases len) auto
    have "n div radix < radix ^ len"
      using Suc.prems by (simp add: less_mult_imp_div_less mult.commute)
    then have "length (toStringRadix radix (n div radix)) \<le> len"
      using Suc.IH Suc.prems(1) len by simp
    then show ?thesis using False Suc.prems(1) by (simp add: toStringRadix_step)
  qed
qed

lemma padStart_length: "length s \<le> len \<Longrightarrow> length (padStart len c s) = len"
  by (simp add: padStart_def)

lemma padStart_digits:
  "0 < radix \<Longrightarrow> digitsBelow radix s \<Longrightarrow> digitsBelow radix (padStart len (CHR ''0'') s)"
  by (auto simp: padStart_def digitsBelow_def digitChar_0 [symmetric])

lemma concat_pick:
  assumes "length chars \<le> 36" "digitsBelow (length chars) s"
  shows "length (concat (map (pick chars) s)) = length s \<and>
         set (concat (map (pick chars) s)) \<subseteq> set chars"
  using assms(2)
proof (induction s)
  case Nil
  then show ?case by simp
next
  case (Cons c s)
  then obtain d where d: "d < length chars" "c = digitChar d"
    by (auto simp: digitsBelow_def)
  have "digitsBelow (length chars) s" using Cons.prems by (simp add: digitsBelow_def)
  with Cons.IH d assms(1) show ?case by (simp add: pick_digitChar)
qed

lemma randomKey_valid:
  "2 \<le> length chars \<Longrightarrow> length chars \<le> 36 \<Longrightarrow>
   randomKey chars len rnd =
     Inr (concat (map (pick chars) (padStart len (CHR ''0'')
       (numToString (length chars) (floorRandom (pow (length chars) len) rnd)))))"
  by (simp add: randomKey_def Let_def)

lemma randomKey_finite:
  assumes "2 \<le> length chars" and "length chars \<le> 36" and "choices chars len \<le> 2 ^ 53"
  shows "randomKey chars len rnd =
     Inr (concat (map (pick chars) (padStart len (CHR ''0'')
       (toStringRadix (length chars) (rnd mod choices chars len)))))"
proof -
  have "(2::nat) ^ 53 < 2 ^ 1024" by simp
  then have less: "choices chars len < 2 ^ 1024" using assms(3) by (rule le_less_trans [rotated])
  have "length chars \<noteq> 0" using assms(1) by arith
  then have "choices chars len \<noteq> 0" unfolding choices_def by (rule power_not_zero)
  then have "numToString (length chars) (floorRandom (pow (length chars) len) rnd) =
      toStringRadix (length chars) (rnd mod choices chars len)"
    using less by (simp add: numToString_def floorRandom_def pow_def choices_def)
  then show ?thesis using randomKey_valid [OF assms(1,2)] by simp
qed

lemma randomKey_exact:
  assumes "2 \<le> length chars" and "length chars \<le> 36" and "choices chars len \<le> 2 ^ 53"
    and "rnd < choices chars len"
  shows "randomKey chars len rnd =
     Inr (concat (map (pick chars) (padStart len (CHR ''0'')
       (toStringRadix (length chars) rnd))))"
  using randomKey_finite [OF assms(1-3)] assms(4) by simp

lemma concat_replicate_single: "concat (replicate n [c]) = replicate n c"
  by (induction n) simp_all

lemma pick_ref:
  "pick keyChars (CHR ''0'') = ''2''" "pick keyChars (CHR ''I'') = ''M''"
  "pick keyChars (CHR ''n'') = ''T''" "pick keyChars (CHR ''f'') = ''J''"
  "pick keyChars (CHR ''i'') = ''M''" "pick keyChars (CHR ''t'') = ''Z''"
  "pick keyChars (CHR ''y'') = []"
  by (simp_all add: pick_def parseInt_def digitVal_def length_keyChars)
     (simp_all add: keyChars_def)

lemma pow_30_209: "pow 30 209 = Infinity"
  by (simp add: pow_def)

text \<open>
  C8, as the specification states it, for the reference alphabet and the length 209:
  \<^verbatim>\<open>Math.pow(30, 209)\<close> is \<^verbatim>\<open>Infinity\<close>, so is the random number unless \<^verbatim>\<open>Math.random()\<close>
  is 0, its string is \<^verbatim>\<open>Infinity\<close> behind 201 zeros, and the \<^verbatim>\<open>y\<close>, no digit in base 30,
  gives no character: the key has 208 characters.
\<close>

theorem randomKey_shape_counterexample:
  "randomKey keyChars 209 1 = Inr (replicate 201 (CHR ''2'') @ ''MTJMTMZ'') \<and>
   length (replicate 201 (CHR ''2'') @ ''MTJMTMZ'') \<noteq> 209"
proof -
  have "numToString 30 (floorRandom (pow 30 209) 1) = ''Infinity''"
    by (simp add: pow_30_209 floorRandom_def numToString_def)
  then have "padStart 209 (CHR ''0'') (numToString 30 (floorRandom (pow 30 209) 1)) =
      replicate 201 (CHR ''0'') @ ''Infinity''"
    by (simp add: padStart_def)
  then have "randomKey keyChars 209 1 =
      Inr (concat (map (pick keyChars) (replicate 201 (CHR ''0'') @ ''Infinity'')))"
    using randomKey_valid [of keyChars 209 1] by (simp add: length_keyChars)
  also have "concat (map (pick keyChars) (replicate 201 (CHR ''0'') @ ''Infinity'')) =
      replicate 201 (CHR ''2'') @ ''MTJMTMZ''"
    by (simp add: pick_ref concat_replicate_single)
  finally show ?thesis by simp
qed

text \<open>
  C8, amended. A configuration is valid when the alphabet has from 2 to 36 characters (the
  radixes \<^verbatim>\<open>toString\<close> accepts), the length is at least 1 and the number of codes is at most
  \<open>2 ^ 53\<close> (the integers a double holds exactly). For every valid configuration and every
  value of \<^verbatim>\<open>Math.random()\<close>, \<^verbatim>\<open>randomKey\<close> returns a string of exactly \<open>len\<close> characters,
  each of them a character of the alphabet.
\<close>

theorem randomKey_shape:
  assumes "2 \<le> length chars" and "length chars \<le> 36" and "0 < len"
    and "choices chars len \<le> 2 ^ 53"
  shows "\<exists>key. randomKey chars len rnd = Inr key \<and> length key = len \<and> set key \<subseteq> set chars"
proof -
  let ?r = "rnd mod choices chars len"
  let ?s = "padStart len (CHR ''0'') (toStringRadix (length chars) ?r)"
  have "length chars \<noteq> 0" using assms(1) by arith
  then have "choices chars len \<noteq> 0" unfolding choices_def by (rule power_not_zero)
  then have "?r < length chars ^ len" by (simp add: choices_def)
  then have "length (toStringRadix (length chars) ?r) \<le> len"
    using assms(1,3) by (simp add: toStringRadix_length)
  then have l: "length ?s = len" by (rule padStart_length)
  have "0 < length chars" using assms(1) by arith
  then have "digitsBelow (length chars) ?s"
    using toStringRadix_digits [OF assms(1)] by (rule padStart_digits)
  then have "length (concat (map (pick chars) ?s)) = length ?s \<and>
             set (concat (map (pick chars) ?s)) \<subseteq> set chars"
    using assms(2) by (rule concat_pick [rotated])
  moreover have "randomKey chars len rnd = Inr (concat (map (pick chars) ?s))"
    by (rule randomKey_finite [OF assms(1,2,4)])
  ultimately show ?thesis using l by simp
qed

text \<open>The amended C8 at the reference configuration.\<close>

theorem randomKey_shape_witness:
  "2 \<le> length keyChars \<and> length keyChars \<le> 36 \<and> 0 < keyLength \<and>
   choices keyChars keyLength \<le> 2 ^ 53 \<and>
   (\<exists>key. randomKey keyChars keyLength 123456 = Inr key \<and> length key = keyLength \<and>
      set key \<subseteq> set keyChars)"
  using randomKey_shape [of keyChars keyLength 123456]
  by (simp add: length_keyChars keyLength_def choices_def)

text \<open>
  C9, as the specification states it: the reference alphabet has 31 symbols and, at length
  4, gives 923,521 codes. It has 30 symbols.
\<close>

theorem keyspace_31_counterexample:
  "\<not> (length keyChars = 31 \<and> keyLength = 4 \<and> choices keyChars keyLength = 923521)"
  by (simp add: length_keyChars)

lemma digs_zero: "digs b l 0 = replicate l 0"
  by (induction l) (simp_all add: replicate_append_same)

lemma length_digs: "length (digs b l n) = l"
  by (induction l arbitrary: n) simp_all

lemma digs_below: "0 < b \<Longrightarrow> \<forall>d \<in> set (digs b l n). d < b"
  by (induction l arbitrary: n) simp_all

lemma padStart_snoc:
  "padStart (Suc l) c (s @ [x]) = padStart l c s @ [x]"
  by (simp add: padStart_def)

lemma padded_digits:
  assumes "2 \<le> b"
  shows "n < b ^ Suc l \<Longrightarrow>
    padStart (Suc l) (CHR ''0'') (toStringRadix b n) = map digitChar (digs b (Suc l) n)"
proof (induction l arbitrary: n)
  case 0
  then have "n < b" by simp
  then show ?case by (simp add: toStringRadix_small padStart_def)
next
  case (Suc l)
  show ?case
  proof (cases "n < b")
    case True
    then have "toStringRadix b n = [digitChar n]" by (rule toStringRadix_small)
    moreover have "digs b (Suc (Suc l)) n = replicate (Suc l) 0 @ [n]"
      using True by (simp add: digs_zero replicate_append_same)
    ultimately show ?thesis by (simp add: padStart_def digitChar_0)
  next
    case False
    then have s: "toStringRadix b n = toStringRadix b (n div b) @ [digitChar (n mod b)]"
      using assms by (simp add: toStringRadix_step)
    have "n div b < b ^ Suc l"
      using Suc.prems by (simp add: less_mult_imp_div_less mult.commute)
    then have "padStart (Suc l) (CHR ''0'') (toStringRadix b (n div b)) =
        map digitChar (digs b (Suc l) (n div b))" by (rule Suc.IH)
    then show ?thesis unfolding s padStart_snoc by simp
  qed
qed

lemma digs_inj:
  assumes "0 < b"
  shows "n < b ^ l \<Longrightarrow> m < b ^ l \<Longrightarrow> digs b l n = digs b l m \<Longrightarrow> n = m"
proof (induction l arbitrary: n m)
  case 0
  then show ?case by simp
next
  case (Suc l)
  have "length (digs b l (n div b)) = length (digs b l (m div b))" by (simp add: length_digs)
  then have e: "digs b l (n div b) = digs b l (m div b)" "n mod b = m mod b"
    using Suc.prems(3) by simp_all
  have "n div b < b ^ l" "m div b < b ^ l"
    using Suc.prems(1,2) by (simp_all add: less_mult_imp_div_less mult.commute)
  then have "n div b = m div b" using e(1) by (rule Suc.IH)
  then show ?case using e(2) by (metis div_mult_mod_eq)
qed

lemma pick_digits:
  assumes "length chars \<le> 36" and "\<forall>d \<in> set ds. d < length chars"
  shows "concat (map (pick chars) (map digitChar ds)) = map (\<lambda>d. chars ! d) ds"
  using assms(2) by (induction ds) (simp_all add: pick_digitChar assms(1))

lemma randomKey_digs:
  assumes "2 \<le> length chars" and "length chars \<le> 36" and "rnd < choices chars (Suc l)"
    and "choices chars (Suc l) \<le> 2 ^ 53"
  shows "randomKey chars (Suc l) rnd = Inr (map (\<lambda>d. chars ! d) (digs (length chars) (Suc l) rnd))"
proof -
  have p: "padStart (Suc l) (CHR ''0'') (toStringRadix (length chars) rnd) =
      map digitChar (digs (length chars) (Suc l) rnd)"
    using assms(1) assms(3) unfolding choices_def by (rule padded_digits)
  have "0 < length chars" using assms(1) by arith
  then have "\<forall>d \<in> set (digs (length chars) (Suc l) rnd). d < length chars"
    by (rule digs_below)
  then have q: "concat (map (pick chars) (map digitChar (digs (length chars) (Suc l) rnd))) =
      map (\<lambda>d. chars ! d) (digs (length chars) (Suc l) rnd)"
    by (rule pick_digits [OF assms(2)])
  have "randomKey chars (Suc l) rnd =
      Inr (concat (map (pick chars)
        (padStart (Suc l) (CHR ''0'') (toStringRadix (length chars) rnd))))"
    by (rule randomKey_exact [OF assms(1,2,4,3)])
  then show ?thesis by (simp only: p q)
qed

lemma map_nth_inj:
  assumes "distinct chars" and "\<forall>d \<in> set xs. d < length chars"
    and "\<forall>d \<in> set ys. d < length chars"
    and "map (\<lambda>d. chars ! d) xs = map (\<lambda>d. chars ! d) ys"
  shows "xs = ys"
  using assms(2-4)
proof (induction xs arbitrary: ys)
  case Nil
  then show ?case by simp
next
  case (Cons x xs)
  then obtain y ys' where ys: "ys = y # ys'" by (cases ys) auto
  have "chars ! x = chars ! y" using Cons.prems(3) ys by simp
  moreover have "x < length chars" "y < length chars" using Cons.prems(1,2) ys by simp_all
  ultimately have "x = y" using assms(1) by (simp add: nth_eq_iff_index_eq)
  moreover have "xs = ys'" using Cons.IH [of ys'] Cons.prems ys by simp
  ultimately show ?case using ys by simp
qed

lemma randomKey_inj:
  assumes "2 \<le> length chars" and "length chars \<le> 36" and "distinct chars"
    and "n < choices chars (Suc l)" and "m < choices chars (Suc l)"
    and "randomKey chars (Suc l) n = randomKey chars (Suc l) m"
    and "choices chars (Suc l) \<le> 2 ^ 53"
  shows "n = m"
proof -
  have pos: "0 < length chars" using assms(1) by arith
  have "map (\<lambda>d. chars ! d) (digs (length chars) (Suc l) n) =
        map (\<lambda>d. chars ! d) (digs (length chars) (Suc l) m)"
    using assms(6) randomKey_digs [OF assms(1,2,4,7)] randomKey_digs [OF assms(1,2,5,7)]
    by simp
  then have "digs (length chars) (Suc l) n = digs (length chars) (Suc l) m"
    by (rule map_nth_inj [OF assms(3) digs_below [OF pos] digs_below [OF pos]])
  then show ?thesis
    using assms(4,5) unfolding choices_def by (rule digs_inj [OF pos, rotated 2])
qed

lemma keyspace_card:
  assumes "2 \<le> length chars" and "length chars \<le> 36" and "distinct chars"
    and "choices chars (Suc l) \<le> 2 ^ 53"
  shows "card {key. \<exists>rnd<choices chars (Suc l). randomKey chars (Suc l) rnd = Inr key} =
         choices chars (Suc l)"
proof -
  let ?N = "choices chars (Suc l)"
  let ?f = "\<lambda>rnd. map (\<lambda>d. chars ! d) (digs (length chars) (Suc l) rnd)"
  have "{key. \<exists>rnd<?N. randomKey chars (Suc l) rnd = Inr key} = ?f ` {..<?N}"
    using randomKey_digs [OF assms(1,2) _ assms(4)] by (auto simp: image_iff)
  moreover have "inj_on ?f {..<?N}"
  proof (rule inj_onI)
    fix n m assume "n \<in> {..<?N}" "m \<in> {..<?N}" "?f n = ?f m"
    then have "n < ?N" "m < ?N" "randomKey chars (Suc l) n = randomKey chars (Suc l) m"
      using randomKey_digs [OF assms(1,2) _ assms(4)] by simp_all
    then show "n = m" by (rule randomKey_inj [OF assms(1-3) _ _ _ assms(4)])
  qed
  ultimately show ?thesis by (simp add: card_image)
qed

lemma distinct_keyChars: "distinct keyChars"
  by (simp add: keyChars_def)

text \<open>
  C9, amended: the reference alphabet has 30 symbols and the length is 4, so the generator
  draws from \<open>30 ^ 4 = 810,000\<close> codes, and the random numbers below \<open>choices\<close> give
  that many different codes.
\<close>

theorem keyspace_reference:
  "length keyChars = 30 \<and> keyLength = 4 \<and> choices keyChars keyLength = 810000 \<and>
   card {key. \<exists>rnd<choices keyChars keyLength. randomKey keyChars keyLength rnd = Inr key} =
     810000"
proof -
  have k: "keyLength = Suc 3" by (simp add: keyLength_def)
  have c: "choices keyChars keyLength = 810000"
    by (simp add: length_keyChars keyLength_def choices_def)
  have "card {key. \<exists>rnd<choices keyChars (Suc 3). randomKey keyChars (Suc 3) rnd = Inr key} =
      choices keyChars (Suc 3)"
    by (rule keyspace_card) (simp_all add: length_keyChars distinct_keyChars choices_def)
  then show ?thesis using c by (simp add: length_keyChars k)
qed

section \<open>Properties of the allocation loop\<close>

lemma randomKey_candidate:
  "2 \<le> length chars \<Longrightarrow> length chars \<le> 36 \<Longrightarrow>
   randomKey chars len (rnd i) = Inr (candidate chars len rnd i)"
  by (simp add: candidate_def randomKey_valid)

lemma allocLoop_from:
  assumes "2 \<le> length chars" and "length chars \<le> 36"
  shows "allocLoop chars len rnd has ksize a = (res, calls) \<Longrightarrow>
    a < calls \<and>
    (\<forall>i. a \<le> i \<and> i < calls - 1 \<longrightarrow> has (candidate chars len rnd i)) \<and>
    (\<forall>key. res = Inr key \<longrightarrow>
       key = candidate chars len rnd (calls - 1) \<and> \<not> has key \<and> calls \<le> Suc ksize) \<and>
    (\<forall>e. res = Inl e \<longrightarrow>
       e = cantGenerate \<and> ksize < calls - 1 \<and> (a \<le> Suc ksize \<longrightarrow> calls = ksize + 2))"
  using assms
proof (induction chars len rnd has ksize a arbitrary: res calls rule: allocLoop.induct)
  case (1 chars len rnd has ksize a)
  let ?k = "candidate chars len rnd a"
  have rk: "randomKey chars len (rnd a) = Inr ?k"
    using "1.prems"(2,3) by (rule randomKey_candidate)
  show ?case
  proof (cases "ksize < a")
    case True
    then have "res = Inl cantGenerate" "calls = Suc a"
      using "1.prems"(1) rk by (simp_all add: allocLoop.simps [of chars len rnd has ksize a])
    then show ?thesis using True by auto
  next
    case False
    show ?thesis
    proof (cases "has ?k")
      case True
      then have rec: "allocLoop chars len rnd has ksize (Suc a) = (res, calls)"
        using "1.prems"(1) rk False by (simp add: allocLoop.simps [of chars len rnd has ksize a])
      note ih = "1.IH" [OF rk False True rec "1.prems"(2,3)]
      have "\<forall>i. a \<le> i \<and> i < calls - 1 \<longrightarrow> has (candidate chars len rnd i)"
      proof (intro allI impI)
        fix i assume i: "a \<le> i \<and> i < calls - 1"
        show "has (candidate chars len rnd i)"
        proof (cases "i = a")
          case True
          then show ?thesis using \<open>has ?k\<close> by simp
        next
          case False
          then have "Suc a \<le> i \<and> i < calls - 1" using i by arith
          then show ?thesis using ih by blast
        qed
      qed
      moreover have "a < calls" using ih by arith
      moreover have "\<forall>e. res = Inl e \<longrightarrow>
         e = cantGenerate \<and> ksize < calls - 1 \<and> (a \<le> Suc ksize \<longrightarrow> calls = ksize + 2)"
        using ih False by auto
      ultimately show ?thesis using ih by blast
    next
      case nh: False
      then have "res = Inr ?k" "calls = Suc a"
        using "1.prems"(1) rk False by (simp_all add: allocLoop.simps [of chars len rnd has ksize a])
      then show ?thesis using nh False by auto
    qed
  qed
qed

lemma allocate_cases:
  assumes "2 \<le> length chars" and "length chars \<le> 36"
    and "allocate chars len rnd ks = (res, calls)"
  shows "0 < calls"
    and "\<And>i. i < calls - 1 \<Longrightarrow> ks (candidate chars len rnd i) \<noteq> None"
    and "\<And>key. res = Inr key \<Longrightarrow>
           key = candidate chars len rnd (calls - 1) \<and> ks key = None \<and> calls \<le> card (dom ks) + 1"
    and "\<And>e. res = Inl e \<Longrightarrow> e = cantGenerate \<and> calls = card (dom ks) + 2"
  using allocLoop_from [OF assms(1,2), of len rnd "\<lambda>k. ks k \<noteq> None" "card (dom ks)" 0 res calls]
    assms(3)
  by (simp_all add: allocate_def)

lemma randomKey_AB: "r < 2 \<Longrightarrow> randomKey ''AB'' 1 r = Inr (if r = 0 then ''A'' else ''B'')"
proof -
  assume "r < 2"
  then have "r = 0 \<or> r = 1" by arith
  moreover have "randomKey ''AB'' 1 r =
      Inr (concat (map (pick ''AB'') (padStart 1 (CHR ''0'')
        (toStringRadix (length ''AB'') (r mod choices ''AB'' 1)))))"
    by (rule randomKey_finite) (simp_all add: choices_def)
  ultimately show ?thesis
    by (auto simp: choices_def pick_def toStringRadix_small padStart_def parseInt_def
        digitVal_def digitChar_def)
qed

lemma allocate_exhausted:
  assumes "2 \<le> length chars" and "length chars \<le> 36"
    and "\<And>i. ks (candidate chars len rnd i) \<noteq> None"
  shows "fst (allocate chars len rnd ks) = Inl cantGenerate"
proof -
  obtain res calls where a: "allocate chars len rnd ks = (res, calls)" by (cases "allocate chars len rnd ks")
  show ?thesis
  proof (cases res)
    case (Inl e)
    then show ?thesis using allocate_cases(4) [OF assms(1,2) a] a by simp
  next
    case (Inr key)
    then have "ks key = None" "key = candidate chars len rnd (calls - 1)"
      using allocate_cases(3) [OF assms(1,2) a Inr] by blast+
    then show ?thesis using assms(3) by simp
  qed
qed

lemma allocate_AB_full:
  assumes "\<forall>i. rnd i < 2" and "dom ks = {''A'', ''B''}"
  shows "fst (allocate ''AB'' 1 rnd ks) = Inl cantGenerate"
proof (rule allocate_exhausted)
  fix i
  have "rnd i < 2" using assms(1) by simp
  then have "randomKey ''AB'' 1 (rnd i) = Inr (if rnd i = 0 then ''A'' else ''B'')"
    by (rule randomKey_AB)
  then have "candidate ''AB'' 1 rnd i = ''A'' \<or> candidate ''AB'' 1 rnd i = ''B''"
    unfolding candidate_def by simp
  then have "candidate ''AB'' 1 rnd i \<in> dom ks" using assms(2) by auto
  then show "ks (candidate ''AB'' 1 rnd i) \<noteq> None" by blast
qed simp_all

lemma randomKey_error: "randomKey chars len r = Inl e \<Longrightarrow> e = RangeError"
  by (simp add: randomKey_def Let_def split: if_splits)

lemma allocLoop_result:
  "allocLoop chars len rnd has ksize a = (res, calls) \<Longrightarrow>
     (\<forall>key. res = Inr key \<longrightarrow> \<not> has key) \<and>
     (\<forall>e. res = Inl e \<longrightarrow> e = cantGenerate \<or> e = RangeError)"
proof (induction chars len rnd has ksize a arbitrary: res calls rule: allocLoop.induct)
  case (1 chars len rnd has ksize a)
  show ?case
  proof (cases "randomKey chars len (rnd a)")
    case (Inl e)
    then have "res = Inl e" using "1.prems"
      by (simp add: allocLoop.simps [of chars len rnd has ksize a])
    then show ?thesis using randomKey_error [OF Inl] by simp
  next
    case (Inr key)
    show ?thesis
    proof (cases "ksize < a")
      case True
      then have "res = Inl cantGenerate" using "1.prems" Inr
        by (simp add: allocLoop.simps [of chars len rnd has ksize a])
      then show ?thesis by simp
    next
      case False
      show ?thesis
      proof (cases "has key")
        case True
        then have "allocLoop chars len rnd has ksize (Suc a) = (res, calls)"
          using "1.prems" Inr False by (simp add: allocLoop.simps [of chars len rnd has ksize a])
        then show ?thesis by (rule "1.IH" [OF Inr False True])
      next
        case nh: False
        then have "res = Inr key" using "1.prems" Inr False
          by (simp add: allocLoop.simps [of chars len rnd has ksize a])
        then show ?thesis using nh by simp
      qed
    qed
  qed
qed

lemma allocate_result:
  assumes "allocate chars len rnd ks = (res, calls)"
  shows "(\<forall>key. res = Inr key \<longrightarrow> ks key = None) \<and>
         (\<forall>e. res = Inl e \<longrightarrow> e = cantGenerate \<or> e = RangeError)"
proof -
  have "allocLoop chars len rnd (\<lambda>k. ks k \<noteq> None) (card (dom ks)) 0 = (res, calls)"
    using assms unfolding allocate_def .
  from allocLoop_result [OF this] show ?thesis by blast
qed

lemma allocate_Inr: "fst (allocate chars len rnd ks) = Inr key \<Longrightarrow> ks key = None"
  using allocate_result [of chars len rnd ks "Inr key" "snd (allocate chars len rnd ks)"]
  by (metis prod.collapse)

lemma allocate_Inl:
  "fst (allocate chars len rnd ks) = Inl e \<Longrightarrow> e = cantGenerate \<or> e = RangeError"
  using allocate_result [of chars len rnd ks "Inl e" "snd (allocate chars len rnd ks)"]
  by (metis prod.collapse)

lemma generate2_success:
  assumes "generate2 chars len rnd ua now s = (Inr r, s')" and "status r = 200"
  shows "\<exists>key. body r = Text key \<and> keys s key = None \<and>
           s' = s\<lparr>keys := (keys s)(key \<mapsto>
                     \<lparr>ident = fresh s, created = now, agent = orEmpty ua, urls = [],
                      fileId = None\<rparr>),
                  pending := pending s @ [(key, fresh s)],
                  fresh := Suc (fresh s),
                  deadline := (deadline s)(fresh s := now + maxExpireDuration * 1000)\<rparr>"
proof (cases "fst (allocate chars len rnd (keys s))")
  case (Inl e)
  then have "e = cantGenerate \<or> e = RangeError" by (rule allocate_Inl)
  then show ?thesis using assms Inl
    by (auto simp: generate2_def cantGenerate_def textResponse_def)
next
  case (Inr key)
  then have "keys s key = None" by (rule allocate_Inr)
  then show ?thesis using assms Inr
    by (auto simp: generate2_def Let_def textResponse_def)
qed

lemma generate1_success:
  assumes "generate1 chars len rnd ua now s = (Inr r, s')"
  shows "\<exists>key. body r = Text key \<and> status r = 200 \<and> keys s key = None \<and>
           s' = s\<lparr>keys := (keys s)(key \<mapsto>
                     \<lparr>ident = fresh s, created = now, agent = orEmpty ua, urls = [],
                      ufile = None, timer = Some (fresh s)\<rparr>),
                  pending := pending s @ [(key, fresh s)],
                  fresh := Suc (fresh s),
                  deadline := (deadline s)(fresh s := now + maxExpireDuration * 1000)\<rparr>"
proof (cases "fst (allocate chars len rnd (keys s))")
  case (Inl e)
  then show ?thesis using assms by (simp add: generate1_def)
next
  case (Inr key)
  then have "keys s key = None" by (rule allocate_Inr)
  then show ?thesis using assms Inr
    by (auto simp: generate1_def Let_def)
qed

lemma generate2_fresh: "fresh s \<le> fresh (snd (generate2 chars len rnd ua now s))"
  by (simp add: generate2_def Let_def split: sum.split error.split)

lemma upload2_fresh: "fresh (snd (upload2 rb uuid s)) = fresh s"
  by (simp add: upload2_def Let_def split: reqbody.split option.split formvalue.split)

lemma expire2_fresh: "fresh (expire2 key s) = fresh s"
  by (simp add: expire2_def Let_def split: option.split)

lemma fire2_fresh: "fresh (fire2 n s) = fresh s"
  by (simp add: fire2_def expire2_fresh)

lemma step2_fresh: "fresh s \<le> fresh (step2 chars len s ev)"
  by (cases ev) (simp_all add: generate2_fresh upload2_fresh fire2_fresh)

lemma steps2_fresh: "fresh s \<le> fresh (foldl (step2 chars len) s evs)"
proof (induction evs arbitrary: s)
  case Nil
  show ?case by simp
next
  case (Cons ev evs)
  have "fresh s \<le> fresh (step2 chars len s ev)" by (rule step2_fresh)
  also have "\<dots> \<le> fresh (foldl (step2 chars len) (step2 chars len s ev) evs)" by (rule Cons.IH)
  finally show ?case by simp
qed

lemma generate1_fresh: "fresh s \<le> fresh (snd (generate1 chars len rnd ua now s))"
  by (simp add: generate1_def Let_def split: sum.split)

lemma upload1_fresh: "fresh (snd (upload1 lib rb kh uuid s)) = fresh s"
  by (simp add: upload1_def Let_def split: prod.split sum.split)

lemma expire1_fresh: "fresh (expire1 key idn s) = fresh s"
  by (simp add: expire1_def split: option.split)

lemma fire1_fresh: "fresh (fire1 n s) = fresh s"
  by (simp add: fire1_def expire1_fresh)

lemma step1_fresh: "fresh s \<le> fresh (step1 lib chars len s ev)"
  by (cases ev) (simp_all add: generate1_fresh upload1_fresh fire1_fresh)

lemma steps1_fresh: "fresh s \<le> fresh (foldl (step1 lib chars len) s evs)"
proof (induction evs arbitrary: s)
  case Nil
  show ?case by simp
next
  case (Cons ev evs)
  have "fresh s \<le> fresh (step1 lib chars len s ev)" by (rule step1_fresh)
  also have "\<dots> \<le> fresh (foldl (step1 lib chars len) (step1 lib chars len s ev) evs)"
    by (rule Cons.IH)
  finally show ?case by simp
qed

lemma allocLoop_stop:
  "2 \<le> length chars \<Longrightarrow> length chars \<le> 36 \<Longrightarrow> ksize < a \<Longrightarrow>
   allocLoop chars len rnd has ksize a = (Inl cantGenerate, Suc a)"
  by (simp add: allocLoop.simps [of chars len rnd has ksize a] randomKey_candidate)

lemma allocLoop_retry:
  "2 \<le> length chars \<Longrightarrow> length chars \<le> 36 \<Longrightarrow> a \<le> ksize \<Longrightarrow>
   has (candidate chars len rnd a) \<Longrightarrow>
   allocLoop chars len rnd has ksize a = allocLoop chars len rnd has ksize (Suc a)"
  by (simp add: allocLoop.simps [of chars len rnd has ksize a] randomKey_candidate)

lemma allocLoop_take:
  "2 \<le> length chars \<Longrightarrow> length chars \<le> 36 \<Longrightarrow> a \<le> ksize \<Longrightarrow>
   \<not> has (candidate chars len rnd a) \<Longrightarrow>
   allocLoop chars len rnd has ksize a = (Inr (candidate chars len rnd a), Suc a)"
  by (simp add: allocLoop.simps [of chars len rnd has ksize a] randomKey_candidate)

lemma replicate_num: "replicate (numeral k) c = c # replicate (pred_numeral k) c"
  by (simp add: numeral_eq_Suc)

lemma randomKey_ref_0: "randomKey keyChars keyLength 0 = Inr ''2222''"
proof -
  have "randomKey keyChars keyLength 0 =
          Inr (concat (map (pick keyChars) (padStart 4 (CHR ''0'') (toStringRadix 30 0))))"
    using randomKey_exact [of keyChars keyLength 0]
    by (simp add: length_keyChars keyLength_def choices_def)
  moreover have "padStart 4 (CHR ''0'') (toStringRadix 30 0) = ''0000''"
    by (simp add: toStringRadix_small padStart_def digitChar_0 replicate_num)
  moreover have "pick keyChars (CHR ''0'') = ''2''"
    using pick_digitChar [of 0 keyChars] by (simp add: length_keyChars digitChar_0 keyChars_def)
  ultimately show ?thesis by simp
qed

lemma candidate_zeroes: "candidate keyChars keyLength zeroes i = ''2222''"
  by (simp add: candidate_def zeroes_def randomKey_ref_0)

lemma candidate_AB_zeroes: "candidate ''AB'' (Suc 0) zeroes i = ''A''"
  using randomKey_AB [of 0] by (simp add: candidate_def zeroes_def)

lemma candidate_AB_ones: "candidate ''AB'' (Suc 0) ones i = ''B''"
  using randomKey_AB [of 1] by (simp add: candidate_def ones_def)

lemmas alloc_eval = allocate_def allocLoop_stop allocLoop_retry allocLoop_take length_keyChars

lemma run2_one:
  "run2 keyChars keyLength [Generate2 zeroes None 0] =
     \<lparr>keys = [''2222'' \<mapsto> \<lparr>ident = 0, created = 0, agent = [], urls = [], fileId = None\<rparr>],
      pending = [(''2222'', 0)], fresh = 1,
      deadline = (\<lambda>n. 0)(0 := maxExpireDuration * 1000), files = Map.empty\<rparr>"
  by (simp add: run2_def init2_def generate2_def alloc_eval candidate_zeroes orEmpty_def)

lemma full2_eq:
  "full2 =
     \<lparr>keys = [''A'' \<mapsto> \<lparr>ident = 0, created = 0, agent = [], urls = [], fileId = None\<rparr>,
              ''B'' \<mapsto> \<lparr>ident = 1, created = 0, agent = [], urls = [], fileId = None\<rparr>],
      pending = [(''A'', 0), (''B'', 1)], fresh = 2,
      deadline = (\<lambda>n. 0)(0 := maxExpireDuration * 1000, 1 := maxExpireDuration * 1000), files = Map.empty\<rparr>"
  by (simp add: full2_def run2_def init2_def generate2_def alloc_eval candidate_AB_zeroes
      candidate_AB_ones orEmpty_def)

lemma full1_eq:
  "full1 =
     \<lparr>keys = [''A'' \<mapsto> \<lparr>ident = 0, created = 0, agent = [], urls = [], ufile = None,
                       timer = Some 0\<rparr>,
              ''B'' \<mapsto> \<lparr>ident = 1, created = 0, agent = [], urls = [], ufile = None,
                       timer = Some 1\<rparr>],
      pending = [(''A'', 0), (''B'', 1)], fresh = 2,
      deadline = (\<lambda>n. 0)(0 := maxExpireDuration * 1000, 1 := maxExpireDuration * 1000), disk = Map.empty\<rparr>"
  by (simp add: full1_def run1_def init1_def generate1_def alloc_eval candidate_AB_zeroes
      candidate_AB_ones orEmpty_def)

lemma generate2_AB_full:
  assumes "\<forall>i. rnd i < 2" and "dom (keys s) = {''A'', ''B''}"
  shows "generate2 ''AB'' 1 rnd ua now s =
           (Inr (textResponse 503 ''Can't generate more keys''), s)"
  using allocate_AB_full [OF assms]
  by (simp add: generate2_def cantGenerate_def orEmpty_def)

lemma generate1_AB_full:
  assumes "\<forall>i. rnd i < 2" and "dom (keys s) = {''A'', ''B''}"
  shows "generate1 ''AB'' 1 rnd ua now s = (Inl cantGenerate, s)"
  using allocate_AB_full [OF assms]
  by (simp add: generate1_def)

text \<open>
  C2, amended. With \<open>n\<close> live sessions the loop tests at most \<open>n + 1\<close> candidates for
  liveness and returns the first of them that is not live, after at most \<open>n + 1\<close> calls of
  the generator; when all \<open>n + 1\<close> are live it fails with 503 after exactly \<open>n + 2\<close>
  calls, the last candidate being generated and dropped untested. In particular, with the
  two codes of a two-code key space both live, a further call fails with 503 and changes
  nothing, in both programs.
\<close>

theorem allocate_budget:
  "(2 \<le> length chars \<and> length chars \<le> 36 \<and> allocate chars len rnd ks = (res, calls) \<longrightarrow>
      0 < calls \<and> calls \<le> card (dom ks) + 2 \<and>
      (\<forall>i<calls - 1. ks (candidate chars len rnd i) \<noteq> None) \<and>
      (\<forall>key. res = Inr key \<longrightarrow>
         key = candidate chars len rnd (calls - 1) \<and> ks key = None \<and>
         calls \<le> card (dom ks) + 1) \<and>
      (\<forall>e. res = Inl e \<longrightarrow> e = cantGenerate \<and> calls = card (dom ks) + 2)) \<and>
   ((\<forall>i. rnd2 i < 2) \<and> dom (keys s2) = {''A'', ''B''} \<longrightarrow>
      generate2 ''AB'' 1 rnd2 ua2 now2 s2 =
        (Inr (textResponse 503 ''Can't generate more keys''), s2)) \<and>
   ((\<forall>i. rnd1 i < 2) \<and> dom (keys s1) = {''A'', ''B''} \<longrightarrow>
      generate1 ''AB'' 1 rnd1 ua1 now1 s1 = (Inl cantGenerate, s1))"
proof (intro conjI impI)
  assume a: "2 \<le> length chars \<and> length chars \<le> 36 \<and> allocate chars len rnd ks = (res, calls)"
  then have v: "2 \<le> length chars" "length chars \<le> 36"
    and al: "allocate chars len rnd ks = (res, calls)" by simp_all
  note c = allocate_cases [OF v al]
  show "0 < calls" by (rule c(1))
  show "\<forall>i<calls - 1. ks (candidate chars len rnd i) \<noteq> None" using c(2) by blast
  show "\<forall>key. res = Inr key \<longrightarrow>
         key = candidate chars len rnd (calls - 1) \<and> ks key = None \<and>
         calls \<le> card (dom ks) + 1" using c(3) by blast
  show "\<forall>e. res = Inl e \<longrightarrow> e = cantGenerate \<and> calls = card (dom ks) + 2"
    using c(4) by blast
  show "calls \<le> card (dom ks) + 2"
  proof (cases res)
    case (Inl e)
    then show ?thesis using c(4) by simp
  next
    case (Inr key)
    then have "calls \<le> card (dom ks) + 1" using c(3) by blast
    then show ?thesis by simp
  qed
next
  assume "(\<forall>i. rnd2 i < 2) \<and> dom (keys s2) = {''A'', ''B''}"
  then have "\<forall>i. rnd2 i < 2" and "dom (keys s2) = {''A'', ''B''}" by simp_all
  then show "generate2 ''AB'' 1 rnd2 ua2 now2 s2 =
        (Inr (textResponse 503 ''Can't generate more keys''), s2)"
    by (rule generate2_AB_full)
next
  assume "(\<forall>i. rnd1 i < 2) \<and> dom (keys s1) = {''A'', ''B''}"
  then have "\<forall>i. rnd1 i < 2" and "dom (keys s1) = {''A'', ''B''}" by simp_all
  then show "generate1 ''AB'' 1 rnd1 ua1 now1 s1 = (Inl cantGenerate, s1)"
    by (rule generate1_AB_full)
qed

lemma oneKey2_eq:
  "oneKey2 =
     \<lparr>keys = [''2222'' \<mapsto> \<lparr>ident = 0, created = 0, agent = [], urls = [], fileId = None\<rparr>],
      pending = [(''2222'', 0)], fresh = 1,
      deadline = (\<lambda>n. 0)(0 := maxExpireDuration * 1000), files = Map.empty\<rparr>"
  by (simp add: oneKey2_def run2_one)

lemma allocate_oneKey2:
  "allocate keyChars keyLength zeroes (keys oneKey2) = (Inl cantGenerate, 3)"
  by (simp add: oneKey2_eq alloc_eval candidate_zeroes)

text \<open>
  The amended C2 at concrete inputs: the reference configuration with the one code
  \<^verbatim>\<open>2222\<close> live and a generator that returns \<^verbatim>\<open>2222\<close> every time, and the two-code
  configuration with both codes live.
\<close>

theorem allocate_budget_witness:
  "2 \<le> length keyChars \<and> length keyChars \<le> 36 \<and>
   allocate keyChars keyLength zeroes (keys oneKey2) = (Inl cantGenerate, 3) \<and>
   card (dom (keys oneKey2)) + 2 = 3 \<and>
   keys oneKey2 (candidate keyChars keyLength zeroes 0) \<noteq> None \<and>
   keys oneKey2 (candidate keyChars keyLength zeroes 1) \<noteq> None \<and>
   (\<forall>i. zeroes i < 2) \<and> dom (keys full2) = {''A'', ''B''} \<and>
   generate2 ''AB'' 1 zeroes None 0 full2 =
     (Inr (textResponse 503 ''Can't generate more keys''), full2) \<and>
   dom (keys full1) = {''A'', ''B''} \<and>
   generate1 ''AB'' 1 zeroes None 0 full1 = (Inl cantGenerate, full1)"
proof -
  have d2: "dom (keys full2) = {''A'', ''B''}" by (auto simp: full2_eq)
  have d1: "dom (keys full1) = {''A'', ''B''}" by (auto simp: full1_eq)
  have z: "\<forall>i. zeroes i < 2" by (simp add: zeroes_def)
  have k: "keys oneKey2 (candidate keyChars keyLength zeroes 0) \<noteq> None"
    "keys oneKey2 (candidate keyChars keyLength zeroes 1) \<noteq> None"
    by (simp_all add: oneKey2_eq candidate_zeroes)
  have c: "card (dom (keys oneKey2)) = 1" by (simp add: oneKey2_eq)
  note th = allocate_budget [of keyChars keyLength zeroes "keys oneKey2" "Inl cantGenerate" 3
        zeroes full2 None 0 zeroes full1 None 0]
  have g2: "generate2 ''AB'' 1 zeroes None 0 full2 =
     (Inr (textResponse 503 ''Can't generate more keys''), full2)"
    using conjunct1 [OF conjunct2 [OF th]] z d2 by (rule mp [OF _ conjI])
  have g1: "generate1 ''AB'' 1 zeroes None 0 full1 = (Inl cantGenerate, full1)"
    using conjunct2 [OF conjunct2 [OF th]] z d1 by (rule mp [OF _ conjI])
  have l: "2 \<le> length keyChars" "length keyChars \<le> 36" by (simp_all add: length_keyChars)
  have c': "card (dom (keys oneKey2)) + 2 = 3" using c by simp
  show ?thesis
    by (intro conjI) (rule l allocate_oneKey2 c' k z d2 g2 d1 g1)+
qed

theorem allocate_calls_counterexample:
  "\<not> snd (allocate keyChars keyLength zeroes (keys oneKey2)) \<le> card (dom (keys oneKey2)) + 1"
  by (simp add: allocate_oneKey2) (simp add: oneKey2_eq)

section \<open>Uniqueness of live codes\<close>

lemma generate2_twice:
  assumes g1: "generate2 chars len rnd ua now s0 = (Inr r, s1)" "status r = 200" "body r = Text k"
    and s2: "s2 = foldl (step2 chars len) s1 evs"
    and g2: "generate2 chars len rnd' ua' now' s2 = (Inr r', s3)" "status r' = 200"
      "body r' = Text k'"
    and live: "map_option ident (keys s3 k) = map_option ident (keys s1 k)"
  shows "k \<noteq> k' \<and> keys s2 k' = None"
proof -
  from generate2_success [OF g1(1,2)] g1(3)
  have a: "map_option ident (keys s1 k) = Some (fresh s0)" "fresh s1 = Suc (fresh s0)"
    by auto
  from generate2_success [OF g2(1,2)] g2(3)
  have b: "map_option ident (keys s3 k') = Some (fresh s2)" "keys s2 k' = None"
    by auto
  have "fresh s1 \<le> fresh s2" unfolding s2 by (rule steps2_fresh)
  then have "fresh s0 \<noteq> fresh s2" using a(2) by arith
  then have "k \<noteq> k'" using a(1) b(1) live by auto
  then show ?thesis using b(2) by simp
qed

lemma generate1_twice:
  assumes g1: "generate1 chars len rnd ua now s0 = (Inr r, s1)" "body r = Text k"
    and s2: "s2 = foldl (step1 lib chars len) s1 evs"
    and g2: "generate1 chars len rnd' ua' now' s2 = (Inr r', s3)" "body r' = Text k'"
    and live: "map_option ident (keys s3 k) = map_option ident (keys s1 k)"
  shows "k \<noteq> k' \<and> keys s2 k' = None"
proof -
  from generate1_success [OF g1(1)] g1(2)
  have a: "map_option ident (keys s1 k) = Some (fresh s0)" "fresh s1 = Suc (fresh s0)"
    by auto
  from generate1_success [OF g2(1)] g2(2)
  have b: "map_option ident (keys s3 k') = Some (fresh s2)" "keys s2 k' = None"
    by auto
  have "fresh s1 \<le> fresh s2" unfolding s2 by (rule steps1_fresh)
  then have "fresh s0 \<noteq> fresh s2" using a(2) by arith
  then have "k \<noteq> k'" using a(1) b(1) live by auto
  then show ?thesis using b(2) by simp
qed

text \<open>
  C4. Two calls of \<^verbatim>\<open>generate\<close> succeed, with anything happening in between. If the session
  the first call stored under its code is still the one stored there when the second call
  returns, the two codes differ; and the code the second call hands out was not live when
  it was called. This holds in both programs.
\<close>

theorem allocate_twice_distinct:
  "(generate2 chars len rnd ua now s0 = (Inr r, s1) \<and> status r = 200 \<and> body r = Text k \<and>
    generate2 chars len rnd' ua' now' (foldl (step2 chars len) s1 evs) = (Inr r', s3) \<and>
    status r' = 200 \<and> body r' = Text k' \<and>
    map_option ident (keys s3 k) = map_option ident (keys s1 k)
    \<longrightarrow> k \<noteq> k' \<and> keys (foldl (step2 chars len) s1 evs) k' = None) \<and>
   (generate1 chars len rnd ua now t0 = (Inr q, t1) \<and> body q = Text c \<and>
    generate1 chars len rnd' ua' now' (foldl (step1 lib chars len) t1 evs1) = (Inr q', t3) \<and>
    body q' = Text c' \<and>
    map_option ident (keys t3 c) = map_option ident (keys t1 c)
    \<longrightarrow> c \<noteq> c' \<and> keys (foldl (step1 lib chars len) t1 evs1) c' = None)"
proof -
  have A: "generate2 chars len rnd ua now s0 = (Inr r, s1) \<and> status r = 200 \<and>
    body r = Text k \<and>
    generate2 chars len rnd' ua' now' (foldl (step2 chars len) s1 evs) = (Inr r', s3) \<and>
    status r' = 200 \<and> body r' = Text k' \<and>
    map_option ident (keys s3 k) = map_option ident (keys s1 k)
    \<longrightarrow> k \<noteq> k' \<and> keys (foldl (step2 chars len) s1 evs) k' = None"
    using generate2_twice [where ?s0.0 = s0 and ?s3.0 = s3 and r = r and r' = r'
          and rnd = rnd and rnd' = rnd' and ua = ua and ua' = ua' and now = now
          and now' = now' and ?s1.0 = s1 and evs = evs and k = k and k' = k'
          and chars = chars and len = len, OF _ _ _ refl]
    by blast
  have B: "generate1 chars len rnd ua now t0 = (Inr q, t1) \<and> body q = Text c \<and>
    generate1 chars len rnd' ua' now' (foldl (step1 lib chars len) t1 evs1) = (Inr q', t3) \<and>
    body q' = Text c' \<and>
    map_option ident (keys t3 c) = map_option ident (keys t1 c)
    \<longrightarrow> c \<noteq> c' \<and> keys (foldl (step1 lib chars len) t1 evs1) c' = None"
    using generate1_twice [where ?s0.0 = t0 and ?s3.0 = t3 and r = q and r' = q'
          and rnd = rnd and rnd' = rnd' and ua = ua and ua' = ua' and now = now
          and now' = now' and ?s1.0 = t1 and evs = evs1 and lib = lib and k = c and k' = c'
          and chars = chars and len = len, OF _ _ refl]
    by blast
  show ?thesis using A B by (rule conjI)
qed

lemma first2_eq:
  "first2 =
     \<lparr>keys = [''A'' \<mapsto> \<lparr>ident = 0, created = 0, agent = [], urls = [], fileId = None\<rparr>],
      pending = [(''A'', 0)], fresh = 1,
      deadline = (\<lambda>n. 0)(0 := maxExpireDuration * 1000), files = Map.empty\<rparr>"
  by (simp add: first2_def run2_def init2_def generate2_def alloc_eval candidate_AB_zeroes
      orEmpty_def)

lemma first1_eq:
  "first1 =
     \<lparr>keys = [''A'' \<mapsto> \<lparr>ident = 0, created = 0, agent = [], urls = [], ufile = None,
                       timer = Some 0\<rparr>],
      pending = [(''A'', 0)], fresh = 1,
      deadline = (\<lambda>n. 0)(0 := maxExpireDuration * 1000), disk = Map.empty\<rparr>"
  by (simp add: first1_def run1_def init1_def generate1_def alloc_eval candidate_AB_zeroes
      orEmpty_def)

lemma generate2_first: "generate2 ''AB'' 1 zeroes None 0 init2 = (Inr (textResponse 200 ''A''), first2)"
  by (simp add: first2_eq init2_def generate2_def alloc_eval candidate_AB_zeroes orEmpty_def)

lemma generate2_second: "generate2 ''AB'' 1 ones None 0 first2 = (Inr (textResponse 200 ''B''), full2)"
  by (simp add: first2_eq full2_eq generate2_def alloc_eval candidate_AB_ones orEmpty_def)

lemma generate1_first:
  "generate1 ''AB'' 1 zeroes None 0 init1 =
     (Inr \<lparr>status = 200, body = Text ''A'', headers = []\<rparr>, first1)"
  by (simp add: first1_eq init1_def generate1_def alloc_eval candidate_AB_zeroes orEmpty_def)

lemma generate1_second:
  "generate1 ''AB'' 1 ones None 0 first1 =
     (Inr \<lparr>status = 200, body = Text ''B'', headers = []\<rparr>, full1)"
  by (simp add: first1_eq full1_eq generate1_def alloc_eval candidate_AB_ones orEmpty_def)

text \<open>
  C4 at a concrete input: the two-code configuration, where the first call returns \<^verbatim>\<open>A\<close>
  and the second \<^verbatim>\<open>B\<close>, in both programs.
\<close>

theorem allocate_twice_distinct_witness:
  "generate2 ''AB'' 1 zeroes None 0 init2 = (Inr (textResponse 200 ''A''), first2) \<and>
   status (textResponse 200 ''A'') = 200 \<and> body (textResponse 200 ''A'') = Text ''A'' \<and>
   generate2 ''AB'' 1 ones None 0 (foldl (step2 ''AB'' 1) first2 []) =
     (Inr (textResponse 200 ''B''), full2) \<and>
   status (textResponse 200 ''B'') = 200 \<and> body (textResponse 200 ''B'') = Text ''B'' \<and>
   map_option ident (keys full2 ''A'') = map_option ident (keys first2 ''A'') \<and>
   ''A'' \<noteq> ''B'' \<and> keys (foldl (step2 ''AB'' 1) first2 []) ''B'' = None \<and>
   generate1 ''AB'' 1 zeroes None 0 init1 =
     (Inr \<lparr>status = 200, body = Text ''A'', headers = []\<rparr>, first1) \<and>
   generate1 ''AB'' 1 ones None 0 (foldl (step1 plainlib ''AB'' 1) first1 []) =
     (Inr \<lparr>status = 200, body = Text ''B'', headers = []\<rparr>, full1) \<and>
   map_option ident (keys full1 ''A'') = map_option ident (keys first1 ''A'') \<and>
   keys (foldl (step1 plainlib ''AB'' 1) first1 []) ''B'' = None"
proof -
  note th = allocate_twice_distinct [where chars = "''AB''" and len = 1 and rnd = zeroes
      and ua = None and now = 0 and ?s0.0 = init2 and r = "textResponse 200 ''A''"
      and ?s1.0 = first2 and k = "''A''" and rnd' = ones and ua' = None and now' = 0
      and evs = "[]" and r' = "textResponse 200 ''B''" and ?s3.0 = full2 and k' = "''B''"
      and ?t0.0 = init1 and q = "\<lparr>status = 200, body = Text ''A'', headers = []\<rparr>"
      and ?t1.0 = first1 and c = "''A''" and lib = plainlib and ?evs1.0 = "[]"
      and q' = "\<lparr>status = 200, body = Text ''B'', headers = []\<rparr>" and ?t3.0 = full1
      and c' = "''B''"]
  have a: "map_option ident (keys full2 ''A'') = map_option ident (keys first2 ''A'')"
    by (simp add: full2_eq first2_eq)
  have b: "map_option ident (keys full1 ''A'') = map_option ident (keys first1 ''A'')"
    by (simp add: full1_eq first1_eq)
  show ?thesis
    using th a b generate2_first generate2_second generate1_first generate1_second
    by (simp add: textResponse_def)
qed

section \<open>Consistency of sessions and callbacks\<close>

lemma consistentI:
  assumes "distinct (map fst (pending s))"
    and "\<And>k idn. (k, idn) \<in> set (pending s) \<Longrightarrow> \<exists>i. keys s k = Some i \<and> ident i = idn"
    and "\<And>k i. keys s k = Some i \<Longrightarrow> (k, ident i) \<in> set (pending s)"
  shows "consistent s"
  using assms unfolding consistent_def by auto

lemma consistentD:
  assumes "consistent s"
  shows "distinct (map fst (pending s))"
    and "\<And>k idn. (k, idn) \<in> set (pending s) \<Longrightarrow> \<exists>i. keys s k = Some i \<and> ident i = idn"
    and "\<And>k i. keys s k = Some i \<Longrightarrow> (k, ident i) \<in> set (pending s)"
  using assms unfolding consistent_def by auto

text \<open>Adding a session under a code that is not live, together with its callback.\<close>

lemma consistent_add:
  assumes c: "consistent s" and free: "keys s key = None"
    and k: "keys s' = (keys s)(key \<mapsto> i)" and p: "pending s' = pending s @ [(key, ident i)]"
  shows "consistent s'"
proof (rule consistentI)
  have "key \<notin> fst ` set (pending s)"
  proof
    assume "key \<in> fst ` set (pending s)"
    then obtain idn where "(key, idn) \<in> set (pending s)" by auto
    then show False using consistentD(2) [OF c] free by fastforce
  qed
  then show "distinct (map fst (pending s'))"
    using consistentD(1) [OF c] p by simp
next
  fix k idn assume "(k, idn) \<in> set (pending s')"
  then consider "(k, idn) \<in> set (pending s)" | "k = key" "idn = ident i" using p by auto
  then show "\<exists>j. keys s' k = Some j \<and> ident j = idn"
  proof cases
    case 1
    then obtain j where "keys s k = Some j" "ident j = idn"
      using consistentD(2) [OF c] by blast
    moreover have "k \<noteq> key" using \<open>keys s k = Some j\<close> free by auto
    ultimately show ?thesis using k by simp
  next
    case 2
    then show ?thesis using k by simp
  qed
next
  fix k j assume "keys s' k = Some j"
  then show "(k, ident j) \<in> set (pending s')"
    using k p consistentD(3) [OF c] by (auto split: if_splits)
qed

text \<open>Changing a live session without changing its identity.\<close>

lemma consistent_update:
  assumes c: "consistent s" and live: "keys s key = Some i" and same: "ident i' = ident i"
    and k: "keys s' = (keys s)(key \<mapsto> i')" and p: "pending s' = pending s"
  shows "consistent s'"
proof (rule consistentI)
  show "distinct (map fst (pending s'))" using consistentD(1) [OF c] p by simp
next
  fix k idn assume "(k, idn) \<in> set (pending s')"
  then obtain j where "keys s k = Some j" "ident j = idn"
    using consistentD(2) [OF c] p by fastforce
  then show "\<exists>j. keys s' k = Some j \<and> ident j = idn"
    using k live same by (cases "k = key") auto
next
  fix k j assume "keys s' k = Some j"
  then show "(k, ident j) \<in> set (pending s')"
    using k p live same consistentD(3) [OF c] by (auto split: if_splits)
qed

lemma set_removeAt:
  assumes "distinct (map fst xs)" and "n < length xs"
  shows "set (removeAt n xs) = set xs - {xs ! n}"
proof -
  have d: "distinct xs" using assms(1) by (rule distinct_map [THEN iffD1, THEN conjunct1])
  have "xs = take n xs @ xs ! n # drop (Suc n) xs" using assms(2) by (rule id_take_nth_drop)
  then have "set xs = set (take n xs) \<union> {xs ! n} \<union> set (drop (Suc n) xs)"
    by (metis Un_insert_right list.simps(15) set_append sup_bot.right_neutral Un_assoc insert_is_Un)
  moreover have "xs ! n \<notin> set (take n xs)" "xs ! n \<notin> set (drop (Suc n) xs)"
    using d assms(2) \<open>xs = take n xs @ xs ! n # drop (Suc n) xs\<close>
    by (metis distinct_append distinct.simps(2) disjoint_iff list.set_intros(1) not_distinct_conv_prefix)+
  ultimately show ?thesis by (auto simp: removeAt_def)
qed

lemma distinct_removeAt: "distinct (map fst xs) \<Longrightarrow> distinct (map fst (removeAt n xs))"
proof -
  assume d: "distinct (map fst xs)"
  have "map fst xs = take n (map fst xs) @ drop n (map fst xs)" by simp
  then have "set (take n (map fst xs)) \<inter> set (drop n (map fst xs)) = {}"
    using d by (metis distinct_append)
  moreover have "set (drop (Suc n) (map fst xs)) \<subseteq> set (drop n (map fst xs))"
    by (rule set_drop_subset_set_drop) simp
  ultimately have "set (take n (map fst xs)) \<inter> set (drop (Suc n) (map fst xs)) = {}" by blast
  moreover have "distinct (take n (map fst xs))" "distinct (drop (Suc n) (map fst xs))"
    using d by simp_all
  ultimately show ?thesis by (simp add: removeAt_def take_map drop_map)
qed

lemma consistent_remove:
  assumes c: "consistent s" and n: "n < length (pending s)" and e: "pending s ! n = (k, idn)"
    and ks: "keys s' = (keys s)(k := None)" and p: "pending s' = removeAt n (pending s)"
  shows "consistent s'"
proof (rule consistentI)
  note d = consistentD(1) [OF c]
  have mem: "set (pending s') = set (pending s) - {(k, idn)}"
    using set_removeAt [OF d n] e p by simp
  have inj: "inj_on fst (set (pending s))" using d by (simp add: distinct_map)
  have here: "(k, idn) \<in> set (pending s)" using n e by (metis nth_mem)
  have other: "k' \<noteq> k" if "(k', idn') \<in> set (pending s')" for k' idn'
  proof
    assume "k' = k"
    moreover have "(k', idn') \<in> set (pending s)" "(k', idn') \<noteq> (k, idn)" using that mem by auto
    ultimately show False using inj_onD [OF inj, of "(k', idn')" "(k, idn)"] here by simp
  qed
  show "distinct (map fst (pending s'))" using d p by (simp add: distinct_removeAt)
  show "\<exists>i. keys s' k' = Some i \<and> ident i = idn'" if "(k', idn') \<in> set (pending s')" for k' idn'
  proof -
    have "(k', idn') \<in> set (pending s)" using that mem by auto
    then obtain i where "keys s k' = Some i" "ident i = idn'"
      using consistentD(2) [OF c] by blast
    then show ?thesis using other [OF that] ks by simp
  qed
  show "(k', ident j) \<in> set (pending s')" if "keys s' k' = Some j" for k' j
  proof -
    have "k' \<noteq> k" "keys s k' = Some j" using that ks by (auto split: if_splits)
    then show ?thesis using consistentD(3) [OF c] mem by auto
  qed
qed

lemma generate2_cases:
  "snd (generate2 chars len rnd ua now s) = s \<or>
   (\<exists>key. keys s key = None \<and>
      snd (generate2 chars len rnd ua now s) =
        s\<lparr>keys := (keys s)(key \<mapsto>
              \<lparr>ident = fresh s, created = now, agent = orEmpty ua, urls = [], fileId = None\<rparr>),
           pending := pending s @ [(key, fresh s)],
           fresh := Suc (fresh s),
           deadline := (deadline s)(fresh s := now + maxExpireDuration * 1000)\<rparr>)"
proof (cases "fst (allocate chars len rnd (keys s))")
  case (Inl e)
  then show ?thesis by (simp add: generate2_def split: error.split)
next
  case (Inr key)
  then have "keys s key = None" by (rule allocate_Inr)
  then show ?thesis using Inr by (auto simp: generate2_def Let_def)
qed

lemma generate1_cases:
  "snd (generate1 chars len rnd ua now s) = s \<or>
   (\<exists>key. keys s key = None \<and>
      snd (generate1 chars len rnd ua now s) =
        s\<lparr>keys := (keys s)(key \<mapsto>
              \<lparr>ident = fresh s, created = now, agent = orEmpty ua, urls = [], ufile = None,
               timer = Some (fresh s)\<rparr>),
           pending := pending s @ [(key, fresh s)],
           fresh := Suc (fresh s),
           deadline := (deadline s)(fresh s := now + maxExpireDuration * 1000)\<rparr>)"
proof (cases "fst (allocate chars len rnd (keys s))")
  case (Inl e)
  then show ?thesis by (simp add: generate1_def)
next
  case (Inr key)
  then have "keys s key = None" by (rule allocate_Inr)
  then show ?thesis using Inr by (auto simp: generate1_def Let_def)
qed

lemma generate2_consistent:
  assumes "consistent s" shows "consistent (snd (generate2 chars len rnd ua now s))"
  using generate2_cases [of chars len rnd ua now s]
proof (elim disjE exE conjE)
  assume "snd (generate2 chars len rnd ua now s) = s"
  then show ?thesis using assms by simp
next
  fix key
  assume free: "keys s key = None"
    and eq: "snd (generate2 chars len rnd ua now s) =
        s\<lparr>keys := (keys s)(key \<mapsto>
              \<lparr>ident = fresh s, created = now, agent = orEmpty ua, urls = [], fileId = None\<rparr>),
           pending := pending s @ [(key, fresh s)],
           fresh := Suc (fresh s),
           deadline := (deadline s)(fresh s := now + maxExpireDuration * 1000)\<rparr>"
  show ?thesis
    by (rule consistent_add [OF assms free, where i = "\<lparr>ident = fresh s, created = now,
          agent = orEmpty ua, urls = [], fileId = None\<rparr>"]) (simp_all add: eq)
qed

lemma generate1_consistent:
  assumes "consistent s" shows "consistent (snd (generate1 chars len rnd ua now s))"
  using generate1_cases [of chars len rnd ua now s]
proof (elim disjE exE conjE)
  assume "snd (generate1 chars len rnd ua now s) = s"
  then show ?thesis using assms by simp
next
  fix key
  assume free: "keys s key = None"
    and eq: "snd (generate1 chars len rnd ua now s) =
        s\<lparr>keys := (keys s)(key \<mapsto>
              \<lparr>ident = fresh s, created = now, agent = orEmpty ua, urls = [], ufile = None,
               timer = Some (fresh s)\<rparr>),
           pending := pending s @ [(key, fresh s)],
           fresh := Suc (fresh s),
           deadline := (deadline s)(fresh s := now + maxExpireDuration * 1000)\<rparr>"
  show ?thesis
    by (rule consistent_add [OF assms free, where i = "\<lparr>ident = fresh s, created = now,
          agent = orEmpty ua, urls = [], ufile = None, timer = Some (fresh s)\<rparr>"])
       (simp_all add: eq)
qed

lemma consistent_cong:
  "consistent s \<Longrightarrow> keys s' = keys s \<Longrightarrow> pending s' = pending s \<Longrightarrow> consistent s'"
  by (simp add: consistent_def)

lemma consistent_bind2:
  "consistent s \<Longrightarrow> keys s K = Some i \<Longrightarrow>
   consistent (s\<lparr>keys := (keys s)(K \<mapsto> i\<lparr>fileId := Some uuid\<rparr>), files := fs\<rparr>)"
  by (rule consistent_update [where i = i and key = K and i' = "i\<lparr>fileId := Some uuid\<rparr>"])
     simp_all

lemma consistent_bind1:
  "consistent s \<Longrightarrow> keys s K = Some i \<Longrightarrow>
   consistent (s\<lparr>keys := (keys s)(K \<mapsto> i\<lparr>ufile := Some f\<rparr>), disk := d\<rparr>)"
  by (rule consistent_update [where i = i and key = K and i' = "i\<lparr>ufile := Some f\<rparr>"])
     simp_all

lemma consistent_disk: "consistent s \<Longrightarrow> consistent (s\<lparr>disk := d\<rparr>)"
  by (rule consistent_cong) simp_all

lemma upload2_consistent:
  assumes "consistent s" shows "consistent (snd (upload2 rb uuid s))"
  using assms
  by (auto simp: upload2_def Let_def consistent_bind2
      split: reqbody.split option.split formvalue.split)

lemma upload1_consistent:
  assumes "consistent s" shows "consistent (snd (upload1 lib rb kh uuid s))"
  using assms
  by (auto simp: upload1_def Let_def consistent_bind1 consistent_disk
      split: prod.split sum.split)

text \<open>What a pending callback finds when it fires in a consistent state.\<close>

lemma pending_live:
  assumes "consistent s" and "n < length (pending s)"
  shows "\<exists>i. keys s (fst (pending s ! n)) = Some i \<and> ident i = snd (pending s ! n)"
  using consistentD(2) [OF assms(1), of "fst (pending s ! n)" "snd (pending s ! n)"] assms(2)
  by simp

lemma fire2_consistent:
  assumes c: "consistent s" shows "consistent (fire2 n s)"
proof (cases "n < length (pending s)")
  case False
  then show ?thesis using c by (simp add: fire2_def)
next
  case True
  obtain i where i: "keys s (fst (pending s ! n)) = Some i" "ident i = snd (pending s ! n)"
    using pending_live [OF c True] by blast
  show ?thesis
    by (rule consistent_remove [OF c True, of "fst (pending s ! n)" "snd (pending s ! n)"])
       (simp_all add: fire2_def True expire2_def i Let_def)
qed

lemma fire1_consistent:
  assumes c: "consistent s" shows "consistent (fire1 n s)"
proof (cases "n < length (pending s)")
  case False
  then show ?thesis using c by (simp add: fire1_def)
next
  case True
  obtain i where i: "keys s (fst (pending s ! n)) = Some i" "ident i = snd (pending s ! n)"
    using pending_live [OF c True] by blast
  show ?thesis
    by (rule consistent_remove [OF c True, of "fst (pending s ! n)" "snd (pending s ! n)"])
       (simp_all add: fire1_def True expire1_def i)
qed

lemma step2_consistent: "consistent s \<Longrightarrow> consistent (step2 chars len s ev)"
  by (cases ev) (simp_all add: generate2_consistent upload2_consistent fire2_consistent)

lemma step1_consistent: "consistent s \<Longrightarrow> consistent (step1 lib chars len s ev)"
  by (cases ev) (simp_all add: generate1_consistent upload1_consistent fire1_consistent)

lemma steps2_consistent: "consistent s \<Longrightarrow> consistent (foldl (step2 chars len) s evs)"
  by (induction evs arbitrary: s) (simp_all add: step2_consistent)

lemma steps1_consistent: "consistent s \<Longrightarrow> consistent (foldl (step1 lib chars len) s evs)"
  by (induction evs arbitrary: s) (simp_all add: step1_consistent)

lemma run2_consistent: "consistent (run2 chars len evs)"
  unfolding run2_def by (rule steps2_consistent) (simp add: consistent_def init2_def)

lemma run1_consistent: "consistent (run1 lib chars len evs)"
  unfolding run1_def by (rule steps1_consistent) (simp add: consistent_def init1_def)

section \<open>Expiry and download\<close>

lemma expire2_absent: "keys s k = None \<Longrightarrow> expire2 k s = s"
  by (simp add: expire2_def)

lemma expire2_keys: "keys (expire2 k s) = (keys s)(k := None)"
  by (auto simp: expire2_def Let_def split: option.split)

lemma expire2_files:
  "keys s k = Some i \<Longrightarrow> fileId i = Some fid \<Longrightarrow> fid \<noteq> [] \<Longrightarrow> files (expire2 k s) fid = None"
  by (auto simp: expire2_def Let_def)

lemma expire1_match:
  "keys t k = Some j \<Longrightarrow> ident j = idn \<Longrightarrow>
   expire1 k idn t = t\<lparr>keys := (keys t)(k := None), disk := removeFile (ufile j) (disk t)\<rparr>"
  by (simp add: expire1_def)

lemma expire1_other: "(\<forall>j. keys t k = Some j \<longrightarrow> ident j \<noteq> idn) \<Longrightarrow> expire1 k idn t = t"
  by (simp add: expire1_def split: option.split)

lemma removeFile_gone: "path f \<noteq> [] \<Longrightarrow> removeFile (Some f) d (path f) = None"
  by (simp add: removeFile_def)

lemma download2_absent: "keys s k = None \<Longrightarrow> download2 k s = notFound2"
  by (simp add: download2_def)

lemma download2_unbound: "keys s k = Some i \<Longrightarrow> fileId i = None \<Longrightarrow> download2 k s = notFound2"
  by (simp add: download2_def Let_def)

lemma download1_absent: "keys t k = None \<Longrightarrow> download1 lib (Some k) t = Inl notFound1"
  by (simp add: download1_def)

lemma download1_unbound:
  "keys t k = Some j \<Longrightarrow> ufile j = None \<Longrightarrow> download1 lib (Some k) t = Inl notFound1"
  by (simp add: download1_def Let_def)

text \<open>A pending callback fires in a state the program has reached.\<close>

lemma fire2_reached:
  assumes s: "s = run2 chars len evs" and n: "n < length (pending s)"
    and e: "pending s ! n = (k, idn)"
  shows "\<exists>i. keys s k = Some i \<and> ident i = idn \<and>
           fire2 n s = expire2 k (s\<lparr>pending := removeAt n (pending s)\<rparr>) \<and>
           keys (fire2 n s) = (keys s)(k := None) \<and>
           (\<forall>fid. fileId i = Some fid \<and> fid \<noteq> [] \<longrightarrow> files (fire2 n s) fid = None)"
proof -
  have c: "consistent s" unfolding s by (rule run2_consistent)
  obtain i where i: "keys s k = Some i" "ident i = idn"
    using pending_live [OF c n] e by auto
  have f: "fire2 n s = expire2 k (s\<lparr>pending := removeAt n (pending s)\<rparr>)"
    using n e by (simp add: fire2_def)
  have "keys (fire2 n s) = (keys s)(k := None)" by (simp add: f expire2_keys)
  moreover have "\<forall>fid. fileId i = Some fid \<and> fid \<noteq> [] \<longrightarrow> files (fire2 n s) fid = None"
    using i by (simp add: f expire2_files)
  ultimately show ?thesis using i f by blast
qed

lemma fire1_reached:
  assumes t: "t = run1 lib chars len evs" and n: "n < length (pending t)"
    and e: "pending t ! n = (k, idn)"
  shows "\<exists>j. keys t k = Some j \<and> ident j = idn \<and>
           fire1 n t = expire1 k idn (t\<lparr>pending := removeAt n (pending t)\<rparr>) \<and>
           keys (fire1 n t) = (keys t)(k := None) \<and>
           disk (fire1 n t) = removeFile (ufile j) (disk t)"
proof -
  have c: "consistent t" unfolding t by (rule run1_consistent)
  obtain j where j: "keys t k = Some j" "ident j = idn"
    using pending_live [OF c n] e by auto
  have f: "fire1 n t = expire1 k idn (t\<lparr>pending := removeAt n (pending t)\<rparr>)"
    using n e by (simp add: fire1_def)
  have "keys (fire1 n t) = (keys t)(k := None)" "disk (fire1 n t) = removeFile (ufile j) (disk t)"
    using j by (simp_all add: f expire1_def)
  then show ?thesis using j f by blast
qed

text \<open>
  C5. In \<^verbatim>\<open>index.js\<close> the callback removes the session and its file when the session stored
  under its code is the one it was armed for, and changes nothing otherwise. In the other
  program the callback changes nothing when no session is stored under its code, and
  whenever a pending callback fires in a state the program has reached, the session stored
  under its code is the one it was armed for, which is then removed.
\<close>

theorem expire_guard:
  "(\<forall>j. keys t k = Some j \<and> ident j = idn \<longrightarrow>
      expire1 k idn t = t\<lparr>keys := (keys t)(k := None), disk := removeFile (ufile j) (disk t)\<rparr>) \<and>
   ((\<forall>j. keys t' k' = Some j \<longrightarrow> ident j \<noteq> idn') \<longrightarrow> expire1 k' idn' t' = t') \<and>
   (keys s k2 = None \<longrightarrow> expire2 k2 s = s) \<and>
   (r = run2 chars len evs \<and> n < length (pending r) \<and> pending r ! n = (c, idc) \<longrightarrow>
      (\<exists>i. keys r c = Some i \<and> ident i = idc \<and>
           fire2 n r = expire2 c (r\<lparr>pending := removeAt n (pending r)\<rparr>) \<and>
           keys (fire2 n r) = (keys r)(c := None)))"
proof (intro conjI allI impI)
  fix j assume "keys t k = Some j \<and> ident j = idn"
  then show "expire1 k idn t =
      t\<lparr>keys := (keys t)(k := None), disk := removeFile (ufile j) (disk t)\<rparr>"
    by (simp add: expire1_match)
next
  assume "\<forall>j. keys t' k' = Some j \<longrightarrow> ident j \<noteq> idn'"
  then show "expire1 k' idn' t' = t'" by (rule expire1_other)
next
  assume "keys s k2 = None"
  then show "expire2 k2 s = s" by (rule expire2_absent)
next
  assume h: "r = run2 chars len evs \<and> n < length (pending r) \<and> pending r ! n = (c, idc)"
  then have "r = run2 chars len evs" "n < length (pending r)" "pending r ! n = (c, idc)"
    by blast+
  from fire2_reached [OF this]
  show "\<exists>i. keys r c = Some i \<and> ident i = idc \<and>
           fire2 n r = expire2 c (r\<lparr>pending := removeAt n (pending r)\<rparr>) \<and>
           keys (fire2 n r) = (keys r)(c := None)"
    by blast
qed

text \<open>The deadline of every stored session, in every state either program reaches.\<close>

lemma nextDue_Some:
  assumes "nextDue t s = Some n"
  shows "n < length (pending s)" and "deadline s (snd (pending s ! n)) \<le> t"
proof -
  let ?d = "\<lambda>n. deadline s (snd (pending s ! n))"
  let ?P = "\<lambda>n. ?d n \<le> t \<and> list_all (\<lambda>m. ?d n \<le> ?d m) [0..<length (pending s)]"
  obtain ns where "filter ?P [0..<length (pending s)] = n # ns"
    using assms by (auto simp: nextDue_def Let_def split: list.splits)
  then have "n \<in> set (filter ?P [0..<length (pending s)])" by simp
  then show "n < length (pending s)" and "deadline s (snd (pending s ! n)) \<le> t" by simp_all
qed

lemma nextDue_None:
  assumes none: "nextDue t s = None" and p: "p \<in> set (pending s)"
  shows "t < deadline s (snd p)"
proof (rule ccontr)
  assume "\<not> t < deadline s (snd p)"
  then have le: "deadline s (snd p) \<le> t" by simp
  let ?d = "\<lambda>n. deadline s (snd (pending s ! n))"
  let ?P = "\<lambda>n. ?d n \<le> t \<and> list_all (\<lambda>m. ?d n \<le> ?d m) [0..<length (pending s)]"
  obtain m where m: "m < length (pending s)" "pending s ! m = p"
    using p by (auto simp: in_set_conv_nth)
  obtain n where n: "n < length (pending s)" "\<forall>y. y < length (pending s) \<longrightarrow> ?d n \<le> ?d y"
    using ex_has_least_nat [of "\<lambda>n. n < length (pending s)" m ?d] m(1) by blast
  have "?d n \<le> ?d m" using n m(1) by blast
  then have "?d n \<le> t" using le m(2) by simp
  then have "?P n" using n(2) by (simp add: list_all_iff)
  then have "n \<in> set (filter ?P [0..<length (pending s)])" using n(1) by simp
  then have "filter ?P [0..<length (pending s)] \<noteq> []" by (metis empty_iff list.set(1))
  then show False using none by (auto simp: nextDue_def Let_def split: list.splits)
qed


lemma timedI:
  assumes "\<And>k i. keys s k = Some i \<Longrightarrow> ident i < fresh s"
    and "\<And>k i. keys s k = Some i \<Longrightarrow>
           deadline s (ident i) = created i + maxExpireDuration * 1000"
  shows "timed s"
  using assms unfolding timed_def by blast

lemma timedD:
  assumes "timed s" and "keys s k = Some i"
  shows "ident i < fresh s" and "deadline s (ident i) = created i + maxExpireDuration * 1000"
  using assms unfolding timed_def by blast+

lemma timed_sub:
  assumes t: "timed s" and k: "\<And>k i. keys s' k = Some i \<Longrightarrow> keys s k = Some i"
    and f: "fresh s' = fresh s" and d: "deadline s' = deadline s"
  shows "timed s'"
proof (rule timedI)
  fix k i assume "keys s' k = Some i"
  then have "keys s k = Some i" by (rule k)
  then show "ident i < fresh s'" "deadline s' (ident i) = created i + maxExpireDuration * 1000"
    using timedD [OF t] f d by simp_all
qed

lemma timed_update:
  assumes t: "timed s" and live: "keys s key = Some i"
    and same: "ident i' = ident i" "created i' = created i"
    and k: "keys s' = (keys s)(key \<mapsto> i')"
    and f: "fresh s' = fresh s" and d: "deadline s' = deadline s"
  shows "timed s'"
proof (rule timedI)
  fix k j assume j: "keys s' k = Some j"
  show "ident j < fresh s'"
  proof (cases "k = key")
    case True
    then have "j = i'" using j k by simp
    then show ?thesis using timedD(1) [OF t live] same f by simp
  next
    case False
    then have "keys s k = Some j" using j k by simp
    then show ?thesis using timedD(1) [OF t] f by simp
  qed
  show "deadline s' (ident j) = created j + maxExpireDuration * 1000"
  proof (cases "k = key")
    case True
    then have "j = i'" using j k by simp
    then show ?thesis using timedD(2) [OF t live] same d by simp
  next
    case False
    then have "keys s k = Some j" using j k by simp
    then show ?thesis using timedD(2) [OF t] d by simp
  qed
qed

lemma timed_add:
  assumes t: "timed s"
    and new: "ident i = fresh s" "created i = now"
    and k: "keys s' = (keys s)(key \<mapsto> i)"
    and f: "fresh s' = Suc (fresh s)"
    and d: "deadline s' = (deadline s)(fresh s := now + maxExpireDuration * 1000)"
  shows "timed s'"
proof (rule timedI)
  fix k j assume j: "keys s' k = Some j"
  show "ident j < fresh s'"
  proof (cases "k = key")
    case True
    then have "j = i" using j k by simp
    then show ?thesis using new f by simp
  next
    case False
    then have "keys s k = Some j" using j k by simp
    then show ?thesis using timedD(1) [OF t] f by fastforce
  qed
  show "deadline s' (ident j) = created j + maxExpireDuration * 1000"
  proof (cases "k = key")
    case True
    then have "j = i" using j k by simp
    then show ?thesis using new d by simp
  next
    case False
    then have l: "keys s k = Some j" using j k by simp
    then have "ident j \<noteq> fresh s" using timedD(1) [OF t l] by simp
    then show ?thesis using timedD(2) [OF t l] d by simp
  qed
qed

lemma generate2_timed:
  assumes "timed s" shows "timed (snd (generate2 chars len rnd ua now s))"
  using generate2_cases [of chars len rnd ua now s]
proof (elim disjE exE conjE)
  assume "snd (generate2 chars len rnd ua now s) = s"
  then show ?thesis using assms by simp
next
  fix key
  assume eq: "snd (generate2 chars len rnd ua now s) =
        s\<lparr>keys := (keys s)(key \<mapsto>
              \<lparr>ident = fresh s, created = now, agent = orEmpty ua, urls = [], fileId = None\<rparr>),
           pending := pending s @ [(key, fresh s)],
           fresh := Suc (fresh s),
           deadline := (deadline s)(fresh s := now + maxExpireDuration * 1000)\<rparr>"
  show ?thesis
    by (rule timed_add [OF assms, where now = now and key = key and i = "\<lparr>ident = fresh s,
          created = now, agent = orEmpty ua, urls = [], fileId = None\<rparr>"])
       (simp_all add: eq)
qed

lemma generate1_timed:
  assumes "timed s" shows "timed (snd (generate1 chars len rnd ua now s))"
  using generate1_cases [of chars len rnd ua now s]
proof (elim disjE exE conjE)
  assume "snd (generate1 chars len rnd ua now s) = s"
  then show ?thesis using assms by simp
next
  fix key
  assume eq: "snd (generate1 chars len rnd ua now s) =
        s\<lparr>keys := (keys s)(key \<mapsto>
              \<lparr>ident = fresh s, created = now, agent = orEmpty ua, urls = [], ufile = None,
               timer = Some (fresh s)\<rparr>),
           pending := pending s @ [(key, fresh s)],
           fresh := Suc (fresh s),
           deadline := (deadline s)(fresh s := now + maxExpireDuration * 1000)\<rparr>"
  show ?thesis
    by (rule timed_add [OF assms, where now = now and key = key and i = "\<lparr>ident = fresh s,
          created = now, agent = orEmpty ua, urls = [], ufile = None,
          timer = Some (fresh s)\<rparr>"])
       (simp_all add: eq)
qed

lemma timed_bind2:
  "timed s \<Longrightarrow> keys s K = Some i \<Longrightarrow>
   timed (s\<lparr>keys := (keys s)(K \<mapsto> i\<lparr>fileId := Some uuid\<rparr>), files := fs\<rparr>)"
  by (rule timed_update [where i = i and key = K and i' = "i\<lparr>fileId := Some uuid\<rparr>"])
     simp_all

lemma timed_bind1:
  "timed s \<Longrightarrow> keys s K = Some i \<Longrightarrow>
   timed (s\<lparr>keys := (keys s)(K \<mapsto> i\<lparr>ufile := Some f\<rparr>), disk := d\<rparr>)"
  by (rule timed_update [where i = i and key = K and i' = "i\<lparr>ufile := Some f\<rparr>"])
     simp_all

lemma timed_disk: "timed s \<Longrightarrow> timed (s\<lparr>disk := d\<rparr>)"
  by (simp add: timed_def)

lemma upload2_timed:
  assumes "timed s" shows "timed (snd (upload2 rb uuid s))"
  using assms
  by (auto simp: upload2_def Let_def timed_bind2
      split: reqbody.split option.split formvalue.split)

lemma upload1_timed:
  assumes "timed s" shows "timed (snd (upload1 lib rb kh uuid s))"
  using assms
  by (auto simp: upload1_def Let_def timed_bind1 timed_disk
      split: prod.split sum.split)

lemma fire2_sub: "keys (fire2 n s) k = Some i \<Longrightarrow> keys s k = Some i"
  by (auto simp: fire2_def expire2_def Let_def split: if_splits option.splits)

lemma fire1_sub: "keys (fire1 n s) k = Some i \<Longrightarrow> keys s k = Some i"
  by (auto simp: fire1_def expire1_def split: if_splits option.splits)

lemma fire2_clock: "fresh (fire2 n s) = fresh s" "deadline (fire2 n s) = deadline s"
  by (auto simp: fire2_def expire2_def Let_def split: option.splits)

lemma fire1_clock: "fresh (fire1 n s) = fresh s" "deadline (fire1 n s) = deadline s"
  by (auto simp: fire1_def expire1_def split: option.splits)

lemma fire2_timed: "timed s \<Longrightarrow> timed (fire2 n s)"
  by (erule timed_sub) (erule fire2_sub, rule fire2_clock, rule fire2_clock)

lemma fire1_timed: "timed s \<Longrightarrow> timed (fire1 n s)"
  by (erule timed_sub) (erule fire1_sub, rule fire1_clock, rule fire1_clock)

lemma step2_timed: "timed s \<Longrightarrow> timed (step2 chars len s ev)"
  by (cases ev) (simp_all add: generate2_timed upload2_timed fire2_timed)

lemma step1_timed: "timed s \<Longrightarrow> timed (step1 lib chars len s ev)"
  by (cases ev) (simp_all add: generate1_timed upload1_timed fire1_timed)

lemma steps2_timed: "timed s \<Longrightarrow> timed (foldl (step2 chars len) s evs)"
  by (induction evs arbitrary: s) (simp_all add: step2_timed)

lemma steps1_timed: "timed s \<Longrightarrow> timed (foldl (step1 lib chars len) s evs)"
  by (induction evs arbitrary: s) (simp_all add: step1_timed)

lemma run2_timed: "timed (run2 chars len evs)"
  unfolding run2_def by (rule steps2_timed) (simp add: timed_def init2_def)

lemma run1_timed: "timed (run1 lib chars len evs)"
  unfolding run1_def by (rule steps1_timed) (simp add: timed_def init1_def)

text \<open>Advancing the clock adds no session and no file.\<close>

lemma fire2_none: "keys s k = None \<Longrightarrow> keys (fire2 n s) k = None"
  by (auto simp: fire2_def expire2_def Let_def split: option.splits)

lemma fire2_no_file: "files s fid = None \<Longrightarrow> files (fire2 n s) fid = None"
  by (auto simp: fire2_def expire2_def Let_def split: option.splits)

lemma fire1_none: "keys s k = None \<Longrightarrow> keys (fire1 n s) k = None"
  by (auto simp: fire1_def expire1_def split: option.splits)

lemma fire1_no_file: "disk s p = None \<Longrightarrow> disk (fire1 n s) p = None"
  by (auto simp: fire1_def expire1_def removeFile_def split: option.splits)

lemma advance2_none: "keys s k = None \<Longrightarrow> keys (advance2 t s) k = None"
proof (induction t s rule: advance2.induct)
  case (1 t s)
  show ?case
  proof (cases "nextDue t s")
    case None
    then show ?thesis using 1(2) by (simp add: advance2.simps)
  next
    case (Some n)
    have "keys (advance2 t (fire2 n s)) k = None"
      by (rule 1(1) [OF Some]) (rule fire2_none [OF 1(2)])
    then show ?thesis using Some by (simp add: advance2.simps [of t s])
  qed
qed

lemma advance2_no_file: "files s fid = None \<Longrightarrow> files (advance2 t s) fid = None"
proof (induction t s rule: advance2.induct)
  case (1 t s)
  show ?case
  proof (cases "nextDue t s")
    case None
    then show ?thesis using 1(2) by (simp add: advance2.simps)
  next
    case (Some n)
    have "files (advance2 t (fire2 n s)) fid = None"
      by (rule 1(1) [OF Some]) (rule fire2_no_file [OF 1(2)])
    then show ?thesis using Some by (simp add: advance2.simps [of t s])
  qed
qed

lemma advance1_none: "keys s k = None \<Longrightarrow> keys (advance1 t s) k = None"
proof (induction t s rule: advance1.induct)
  case (1 t s)
  show ?case
  proof (cases "nextDue t s")
    case None
    then show ?thesis using 1(2) by (simp add: advance1.simps)
  next
    case (Some n)
    have "keys (advance1 t (fire1 n s)) k = None"
      by (rule 1(1) [OF Some]) (rule fire1_none [OF 1(2)])
    then show ?thesis using Some by (simp add: advance1.simps [of t s])
  qed
qed

lemma advance1_no_file: "disk s p = None \<Longrightarrow> disk (advance1 t s) p = None"
proof (induction t s rule: advance1.induct)
  case (1 t s)
  show ?case
  proof (cases "nextDue t s")
    case None
    then show ?thesis using 1(2) by (simp add: advance1.simps)
  next
    case (Some n)
    have "disk (advance1 t (fire1 n s)) p = None"
      by (rule 1(1) [OF Some]) (rule fire1_no_file [OF 1(2)])
    then show ?thesis using Some by (simp add: advance1.simps [of t s])
  qed
qed

text \<open>What the callback of a code does when it fires in a consistent state.\<close>

lemma fire2_at:
  assumes c: "consistent s" and n: "n < length (pending s)"
  shows "\<exists>i. keys s (fst (pending s ! n)) = Some i \<and> ident i = snd (pending s ! n) \<and>
           keys (fire2 n s) = (keys s)(fst (pending s ! n) := None) \<and>
           (\<forall>fid. fileId i = Some fid \<and> fid \<noteq> [] \<longrightarrow> files (fire2 n s) fid = None)"
proof -
  obtain i where i: "keys s (fst (pending s ! n)) = Some i" "ident i = snd (pending s ! n)"
    using pending_live [OF c n] by blast
  have f: "fire2 n s = expire2 (fst (pending s ! n)) (s\<lparr>pending := removeAt n (pending s)\<rparr>)"
    using n by (simp add: fire2_def)
  have "keys (fire2 n s) = (keys s)(fst (pending s ! n) := None)" by (simp add: f expire2_keys)
  moreover have "\<forall>fid. fileId i = Some fid \<and> fid \<noteq> [] \<longrightarrow> files (fire2 n s) fid = None"
    using i by (simp add: f expire2_files)
  ultimately show ?thesis using i by blast
qed

lemma fire1_at:
  assumes c: "consistent s" and n: "n < length (pending s)"
  shows "\<exists>j. keys s (fst (pending s ! n)) = Some j \<and> ident j = snd (pending s ! n) \<and>
           keys (fire1 n s) = (keys s)(fst (pending s ! n) := None) \<and>
           disk (fire1 n s) = removeFile (ufile j) (disk s)"
proof -
  obtain j where j: "keys s (fst (pending s ! n)) = Some j" "ident j = snd (pending s ! n)"
    using pending_live [OF c n] by blast
  have f: "fire1 n s = expire1 (fst (pending s ! n)) (snd (pending s ! n))
      (s\<lparr>pending := removeAt n (pending s)\<rparr>)"
    using n by (simp add: fire1_def)
  have "keys (fire1 n s) = (keys s)(fst (pending s ! n) := None)"
    "disk (fire1 n s) = removeFile (ufile j) (disk s)"
    using j by (simp_all add: f expire1_def)
  then show ?thesis using j by blast
qed

text \<open>A session whose deadline has come is gone, with its file, once the clock is advanced.\<close>

lemma advance2_gone:
  assumes "consistent s" and "keys s k = Some i" and "deadline s (ident i) \<le> t"
  shows "keys (advance2 t s) k = None \<and>
         (\<forall>fid. fileId i = Some fid \<and> fid \<noteq> [] \<longrightarrow> files (advance2 t s) fid = None)"
  using assms
proof (induction t s rule: advance2.induct)
  case (1 t s)
  note c = 1(2) and live = 1(3) and due = 1(4)
  have p: "(k, ident i) \<in> set (pending s)" using consistentD(3) [OF c live] .
  show ?case
  proof (cases "nextDue t s")
    case None
    from nextDue_None [OF None p] due show ?thesis by simp
  next
    case (Some n)
    note n = nextDue_Some(1) [OF Some]
    have eq: "advance2 t s = advance2 t (fire2 n s)"
      using Some by (simp add: advance2.simps [of t s])
    obtain i' where i': "keys s (fst (pending s ! n)) = Some i'"
      "keys (fire2 n s) = (keys s)(fst (pending s ! n) := None)"
      "\<forall>fid. fileId i' = Some fid \<and> fid \<noteq> [] \<longrightarrow> files (fire2 n s) fid = None"
      using fire2_at [OF c n] by blast
    show ?thesis
    proof (cases "fst (pending s ! n) = k")
      case True
      then have "i' = i" using i'(1) live by simp
      then have "keys (fire2 n s) k = None"
        "\<forall>fid. fileId i = Some fid \<and> fid \<noteq> [] \<longrightarrow> files (fire2 n s) fid = None"
        using i' True by auto
      then show ?thesis unfolding eq by (simp add: advance2_none advance2_no_file)
    next
      case False
      then have l: "keys (fire2 n s) k = Some i" using i'(2) live by simp
      have "consistent (fire2 n s)" using c by (rule fire2_consistent)
      moreover note l
      moreover have "deadline (fire2 n s) (ident i) \<le> t" using due by (simp add: fire2_clock)
      ultimately show ?thesis unfolding eq by (rule 1(1) [OF Some])
    qed
  qed
qed

lemma advance1_gone:
  assumes "consistent s" and "keys s k = Some j" and "deadline s (ident j) \<le> t"
  shows "keys (advance1 t s) k = None \<and>
         (\<forall>f. ufile j = Some f \<and> path f \<noteq> [] \<longrightarrow> disk (advance1 t s) (path f) = None)"
  using assms
proof (induction t s rule: advance1.induct)
  case (1 t s)
  note c = 1(2) and live = 1(3) and due = 1(4)
  have p: "(k, ident j) \<in> set (pending s)" using consistentD(3) [OF c live] .
  show ?case
  proof (cases "nextDue t s")
    case None
    from nextDue_None [OF None p] due show ?thesis by simp
  next
    case (Some n)
    note n = nextDue_Some(1) [OF Some]
    have eq: "advance1 t s = advance1 t (fire1 n s)"
      using Some by (simp add: advance1.simps [of t s])
    obtain j' where j': "keys s (fst (pending s ! n)) = Some j'"
      "keys (fire1 n s) = (keys s)(fst (pending s ! n) := None)"
      "disk (fire1 n s) = removeFile (ufile j') (disk s)"
      using fire1_at [OF c n] by blast
    show ?thesis
    proof (cases "fst (pending s ! n) = k")
      case True
      then have "j' = j" using j'(1) live by simp
      then have "keys (fire1 n s) k = None"
        "\<forall>f. ufile j = Some f \<and> path f \<noteq> [] \<longrightarrow> disk (fire1 n s) (path f) = None"
        using j' True by (auto simp: removeFile_def)
      then show ?thesis unfolding eq by (simp add: advance1_none advance1_no_file)
    next
      case False
      then have l: "keys (fire1 n s) k = Some j" using j'(2) live by simp
      have "consistent (fire1 n s)" using c by (rule fire1_consistent)
      moreover note l
      moreover have "deadline (fire1 n s) (ident j) \<le> t" using due by (simp add: fire1_clock)
      ultimately show ?thesis unfolding eq by (rule 1(1) [OF Some])
    qed
  qed
qed

text \<open>Advancing the clock to a time before the deadline of a session leaves the session.\<close>

lemma advance2_early:
  assumes "consistent s" and "keys s k = Some i" and "t < deadline s (ident i)"
  shows "keys (advance2 t s) k = Some i"
  using assms
proof (induction t s rule: advance2.induct)
  case (1 t s)
  note c = 1(2) and live = 1(3) and early = 1(4)
  show ?case
  proof (cases "nextDue t s")
    case None
    then show ?thesis using live by (simp add: advance2.simps [of t s])
  next
    case (Some n)
    note n = nextDue_Some [OF Some]
    have eq: "advance2 t s = advance2 t (fire2 n s)"
      using Some by (simp add: advance2.simps [of t s])
    obtain i' where i': "keys s (fst (pending s ! n)) = Some i'" "ident i' = snd (pending s ! n)"
      "keys (fire2 n s) = (keys s)(fst (pending s ! n) := None)"
      using fire2_at [OF c n(1)] by blast
    have other: "fst (pending s ! n) \<noteq> k"
    proof
      assume "fst (pending s ! n) = k"
      then have "i' = i" using i'(1) live by simp
      then show False using n(2) i'(2) early by simp
    qed
    have "consistent (fire2 n s)" using c by (rule fire2_consistent)
    moreover have "keys (fire2 n s) k = Some i" using other i'(3) live by simp
    moreover have "t < deadline (fire2 n s) (ident i)" using early by (simp add: fire2_clock)
    ultimately show ?thesis unfolding eq by (rule 1(1) [OF Some])
  qed
qed

lemma advance1_early:
  assumes "consistent s" and "keys s k = Some j" and "t < deadline s (ident j)"
  shows "keys (advance1 t s) k = Some j"
  using assms
proof (induction t s rule: advance1.induct)
  case (1 t s)
  note c = 1(2) and live = 1(3) and early = 1(4)
  show ?case
  proof (cases "nextDue t s")
    case None
    then show ?thesis using live by (simp add: advance1.simps [of t s])
  next
    case (Some n)
    note n = nextDue_Some [OF Some]
    have eq: "advance1 t s = advance1 t (fire1 n s)"
      using Some by (simp add: advance1.simps [of t s])
    obtain j' where j': "keys s (fst (pending s ! n)) = Some j'" "ident j' = snd (pending s ! n)"
      "keys (fire1 n s) = (keys s)(fst (pending s ! n) := None)"
      using fire1_at [OF c n(1)] by blast
    have other: "fst (pending s ! n) \<noteq> k"
    proof
      assume "fst (pending s ! n) = k"
      then have "j' = j" using j'(1) live by simp
      then show False using n(2) j'(2) early by simp
    qed
    have "consistent (fire1 n s)" using c by (rule fire1_consistent)
    moreover have "keys (fire1 n s) k = Some j" using other j'(3) live by simp
    moreover have "t < deadline (fire1 n s) (ident j)" using early by (simp add: fire1_clock)
    ultimately show ?thesis unfolding eq by (rule 1(1) [OF Some])
  qed
qed

text \<open>
  C7. In any state either program has reached, every session stored under a code has its
  callback pending, due \<^verbatim>\<open>maxExpireDuration * 1000\<close> milliseconds after the session was
  created. Once the clock has been advanced to that time or beyond, the code is not live, a
  download with it gets the answer for a code that is not live, and the file bound to the
  session last is neither in the \<^verbatim>\<open>files\<close> map nor on disk.
\<close>

theorem expiry_removes:
  "(s = run2 chars len evs \<and> keys s k = Some i \<longrightarrow>
      (k, ident i) \<in> set (pending s) \<and>
      deadline s (ident i) = created i + maxExpireDuration * 1000 \<and>
      (\<forall>t. created i + maxExpireDuration * 1000 \<le> t \<longrightarrow>
         keys (advance2 t s) k = None \<and>
         download2 k (advance2 t s) = notFound2 \<and>
         (\<forall>fid. fileId i = Some fid \<and> fid \<noteq> [] \<longrightarrow> files (advance2 t s) fid = None))) \<and>
   (u = run1 lib chars len evs1 \<and> keys u c = Some j \<longrightarrow>
      (c, ident j) \<in> set (pending u) \<and>
      deadline u (ident j) = created j + maxExpireDuration * 1000 \<and>
      (\<forall>t. created j + maxExpireDuration * 1000 \<le> t \<longrightarrow>
         keys (advance1 t u) c = None \<and>
         download1 lib (Some c) (advance1 t u) = Inl notFound1 \<and>
         (\<forall>f. ufile j = Some f \<and> path f \<noteq> [] \<longrightarrow> disk (advance1 t u) (path f) = None)))"
proof (intro conjI impI allI)
  assume h: "s = run2 chars len evs \<and> keys s k = Some i"
  then have s: "s = run2 chars len evs" and live: "keys s k = Some i" by blast+
  have c: "consistent s" unfolding s by (rule run2_consistent)
  have tm: "timed s" unfolding s by (rule run2_timed)
  show "(k, ident i) \<in> set (pending s)" using consistentD(3) [OF c live] .
  show d: "deadline s (ident i) = created i + maxExpireDuration * 1000"
    using timedD(2) [OF tm live] .
  fix t assume "created i + maxExpireDuration * 1000 \<le> t"
  then have "deadline s (ident i) \<le> t" using d by simp
  note g = advance2_gone [OF c live this]
  show "keys (advance2 t s) k = None" using g by blast
  then show "download2 k (advance2 t s) = notFound2" by (rule download2_absent)
  fix fid assume "fileId i = Some fid \<and> fid \<noteq> []"
  then show "files (advance2 t s) fid = None" using g by blast
next
  assume h: "u = run1 lib chars len evs1 \<and> keys u c = Some j"
  then have u: "u = run1 lib chars len evs1" and live: "keys u c = Some j" by blast+
  have c: "consistent u" unfolding u by (rule run1_consistent)
  have tm: "timed u" unfolding u by (rule run1_timed)
  show "(c, ident j) \<in> set (pending u)" using consistentD(3) [OF c live] .
  show d: "deadline u (ident j) = created j + maxExpireDuration * 1000"
    using timedD(2) [OF tm live] .
  fix t assume "created j + maxExpireDuration * 1000 \<le> t"
  then have "deadline u (ident j) \<le> t" using d by simp
  note g = advance1_gone [OF c live this]
  show "keys (advance1 t u) c = None" using g by blast
  then show "download1 lib (Some c) (advance1 t u) = Inl notFound1" by (rule download1_absent)
  fix f assume "ufile j = Some f \<and> path f \<noteq> []"
  then show "disk (advance1 t u) (path f) = None" using g by blast
qed

text \<open>
  C6. A download with a code that is not live (never allocated, or removed), with a code
  whose session has no file bound, and with a code whose callback has fired, gets the same
  answer: status 404 with the same body in one program, the same 404 error in the other.
\<close>

theorem download_not_found:
  "(keys s k = None \<longrightarrow> download2 k s = notFound2) \<and>
   (\<forall>i. keys s' k' = Some i \<and> fileId i = None \<longrightarrow> download2 k' s' = notFound2) \<and>
   (r = run2 chars len evs \<and> n < length (pending r) \<and> fst (pending r ! n) = kr \<longrightarrow>
      download2 kr (fire2 n r) = notFound2) \<and>
   (keys t c = None \<longrightarrow> download1 lib (Some c) t = Inl notFound1) \<and>
   (\<forall>j. keys t' c' = Some j \<and> ufile j = None \<longrightarrow> download1 lib (Some c') t' = Inl notFound1) \<and>
   (u = run1 lib chars len evs1 \<and> m < length (pending u) \<and> fst (pending u ! m) = cu \<longrightarrow>
      download1 lib (Some cu) (fire1 m u) = Inl notFound1)"
proof (intro conjI allI impI)
  assume "keys s k = None"
  then show "download2 k s = notFound2" by (rule download2_absent)
next
  fix i assume "keys s' k' = Some i \<and> fileId i = None"
  then show "download2 k' s' = notFound2" by (simp add: download2_unbound)
next
  assume h: "r = run2 chars len evs \<and> n < length (pending r) \<and> fst (pending r ! n) = kr"
  then have "r = run2 chars len evs" "n < length (pending r)"
    "pending r ! n = (kr, snd (pending r ! n))" by auto
  from fire2_reached [OF this] have "keys (fire2 n r) kr = None" by auto
  then show "download2 kr (fire2 n r) = notFound2" by (rule download2_absent)
next
  assume "keys t c = None"
  then show "download1 lib (Some c) t = Inl notFound1" by (rule download1_absent)
next
  fix j assume "keys t' c' = Some j \<and> ufile j = None"
  then show "download1 lib (Some c') t' = Inl notFound1" by (simp add: download1_unbound)
next
  assume h: "u = run1 lib chars len evs1 \<and> m < length (pending u) \<and> fst (pending u ! m) = cu"
  then have "u = run1 lib chars len evs1" "m < length (pending u)"
    "pending u ! m = (cu, snd (pending u ! m))" by auto
  from fire1_reached [OF this] have "keys (fire1 m u) cu = None" by auto
  then show "download1 lib (Some cu) (fire1 m u) = Inl notFound1" by (rule download1_absent)
qed

section \<open>Sample runs\<close>

lemma upper_2222: "toUpperCase ''2222'' = Some ''2222''"
  by (simp add: upperUnits_def)

lemma ext_book_epub: "toLowerCase (lastSegment ''book.epub'') = ''epub''"
  by (simp add: toLowerCase_def lowerChar_def lastSegment_def)

lemma ext_book2_pdf: "toLowerCase (lastSegment ''book2.pdf'') = ''pdf''"
  by (simp add: toLowerCase_def lowerChar_def lastSegment_def)

lemma plain_ext_book_epub: "drop 1 (toLowerCase (extname plainlib ''book.epub'')) = ''epub''"
  by (simp add: plainlib_def plainExt_def baseName_def toLowerCase_def lowerChar_def
      lastSegment_def)

lemma bound2_eq:
  "bound2 =
     \<lparr>keys = [''2222'' \<mapsto> \<lparr>ident = 0, created = 0, agent = [], urls = [],
                          fileId = Some ''id-1''\<rparr>],
      pending = [(''2222'', 0)], fresh = 1,
      deadline = (\<lambda>n. 0)(0 := maxExpireDuration * 1000), files = [''id-1'' \<mapsto> bookA]\<rparr>"
proof -
  have "bound2 = snd (upload2 (Form (Some (FString ''2222'')) (Some (FFile bookA))) ''id-1'' oneKey2)"
    by (simp add: bound2_def oneKey2_def run2_def)
  also have "\<dots> = \<lparr>keys = [''2222'' \<mapsto> \<lparr>ident = 0, created = 0, agent = [], urls = [],
                          fileId = Some ''id-1''\<rparr>],
      pending = [(''2222'', 0)], fresh = 1,
      deadline = (\<lambda>n. 0)(0 := maxExpireDuration * 1000), files = [''id-1'' \<mapsto> bookA]\<rparr>"
    by (simp add: oneKey2_eq upload2_def formToString_def upper_2222 del: toUpperCase.simps)
       (simp add: bookA_def ext_book_epub allowedExtensions_def)
  finally show ?thesis .
qed

lemma plain_open_A: "openFails plainlib ''uploads/id-1-book.epub'' = None"
  by (simp add: plainlib_def)

lemma plain_open_B: "openFails plainlib ''uploads/id-2-book2.pdf'' = None"
  by (simp add: plainlib_def)

lemma plain_path_A: "uploadPath plainlib ''id-1'' formA = ''uploads/id-1-book.epub''"
  by (simp add: uploadPath_def plainlib_def formA_def)

lemma bound1_eq:
  "bound1 =
     \<lparr>keys = [''2222'' \<mapsto> \<lparr>ident = 0, created = 0, agent = [], urls = [],
                ufile = Some \<lparr>up_filename = ''book.epub'', path = ''uploads/id-1-book.epub'',
                               up_type = ''application/epub+zip''\<rparr>,
                timer = Some 0\<rparr>],
      pending = [(''2222'', 0)], fresh = 1,
      deadline = (\<lambda>n. 0)(0 := maxExpireDuration * 1000),
      disk = [''uploads/id-1-book.epub'' \<mapsto> [1, 2, 3, 4, 5, 6, 7, 8, 9, 10]]\<rparr>"
proof -
  let ?one = "\<lparr>keys = [''2222'' \<mapsto> \<lparr>ident = 0, created = 0, agent = [], urls = [],
                ufile = None, timer = Some 0\<rparr>],
      pending = [(''2222'', 0)], fresh = 1,
      deadline = (\<lambda>n. 0)(0 := maxExpireDuration * 1000), disk = Map.empty\<rparr>"
  have one: "snd (generate1 keyChars keyLength zeroes None 0 init1) = ?one"
    by (simp add: init1_def generate1_def alloc_eval candidate_zeroes orEmpty_def)
  have h: "handleUpload plainlib (FormData [formA]) ''id-1'' Map.empty =
     (Inr \<lparr>up_filename = ''book.epub'', path = ''uploads/id-1-book.epub'',
           up_type = ''application/epub+zip''\<rparr>,
      [''uploads/id-1-book.epub'' \<mapsto> [1, 2, 3, 4, 5, 6, 7, 8, 9, 10]])"
  proof -
    have e: "drop (Suc 0) (toLowerCase (extname plainlib ''book.epub'')) = ''epub''"
      using plain_ext_book_epub by simp
    have f: "filename formA = ''book.epub''" "contentType formA = ''application/epub+zip''"
      "content formA = [1, 2, 3, 4, 5, 6, 7, 8, 9, 10]" by (simp_all add: formA_def)
    show ?thesis
      by (simp add: handleUpload_def Let_def e plain_path_A plain_open_A
          allowedExtensions_def overwrite_def f)
  qed
  have "bound1 = snd (upload1 plainlib (FormData [formA]) (Some ''2222'') ''id-1'' ?one)"
    by (simp add: bound1_def run1_def one)
  also have "\<dots> = \<lparr>keys = [''2222'' \<mapsto> \<lparr>ident = 0, created = 0, agent = [], urls = [],
                ufile = Some \<lparr>up_filename = ''book.epub'', path = ''uploads/id-1-book.epub'',
                               up_type = ''application/epub+zip''\<rparr>,
                timer = Some 0\<rparr>],
      pending = [(''2222'', 0)], fresh = 1,
      deadline = (\<lambda>n. 0)(0 := maxExpireDuration * 1000),
      disk = [''uploads/id-1-book.epub'' \<mapsto> [1, 2, 3, 4, 5, 6, 7, 8, 9, 10]]\<rparr>"
    by (simp add: upload1_def h upper_2222 removeFile_def del: toUpperCase.simps)
  finally show ?thesis .
qed

lemma realloc1_eq:
  "realloc1 =
     \<lparr>keys = [''2222'' \<mapsto> \<lparr>ident = 1, created = 0, agent = [], urls = [], ufile = None,
                          timer = Some 1\<rparr>],
      pending = [(''2222'', 1)], fresh = 2,
      deadline = (\<lambda>n. 0)(0 := maxExpireDuration * 1000, 1 := maxExpireDuration * 1000), disk = Map.empty\<rparr>"
proof -
  let ?one = "\<lparr>keys = [''2222'' \<mapsto> \<lparr>ident = 0, created = 0, agent = [], urls = [],
                ufile = None, timer = Some 0\<rparr>],
      pending = [(''2222'', 0)], fresh = 1,
      deadline = (\<lambda>n. 0)(0 := maxExpireDuration * 1000), disk = Map.empty\<rparr>"
  let ?none = "\<lparr>keys = Map.empty, pending = [], fresh = 1, deadline = (\<lambda>n. 0)(0 := maxExpireDuration * 1000), disk = Map.empty\<rparr> :: state1"
  have one: "snd (generate1 keyChars keyLength zeroes None 0 init1) = ?one"
    by (simp add: init1_def generate1_def alloc_eval candidate_zeroes orEmpty_def)
  have f: "fire1 0 ?one = ?none"
    by (simp add: fire1_def expire1_def removeAt_def removeFile_def)
  have g: "snd (generate1 keyChars keyLength zeroes None 0 ?none) =
     \<lparr>keys = [''2222'' \<mapsto> \<lparr>ident = 1, created = 0, agent = [], urls = [], ufile = None,
                          timer = Some 1\<rparr>],
      pending = [(''2222'', 1)], fresh = 2,
      deadline = (\<lambda>n. 0)(0 := maxExpireDuration * 1000, 1 := maxExpireDuration * 1000), disk = Map.empty\<rparr>"
    by (simp add: generate1_def alloc_eval candidate_zeroes orEmpty_def)
  have "realloc1 = snd (generate1 keyChars keyLength zeroes None 0
      (fire1 0 (snd (generate1 keyChars keyLength zeroes None 0 init1))))"
    by (simp add: realloc1_def run1_def)
  then show ?thesis by (simp only: one f g)
qed

lemma bound2_run:
  "bound2 = run2 keyChars keyLength
     [Generate2 zeroes None 0,
      Upload2 (Form (Some (FString ''2222'')) (Some (FFile bookA))) ''id-1'']"
  by (rule bound2_def)

lemma bound1_run:
  "bound1 = run1 plainlib keyChars keyLength
     [Generate1 zeroes None 0, Upload1 (FormData [formA]) (Some ''2222'') ''id-1'']"
  by (rule bound1_def)

lemma bound2_pending: "0 < length (pending bound2)" "pending bound2 ! 0 = (''2222'', 0)"
  by (simp_all add: bound2_eq)

lemma bound1_pending: "0 < length (pending bound1)" "pending bound1 ! 0 = (''2222'', 0)"
  by (simp_all add: bound1_eq)

text \<open>
  C5 at concrete inputs: the callback of a session with a file bound; the callback of a
  session whose code has since been given to another session; a callback for a code that is
  not live; and the pending callback of a reached state.
\<close>

theorem expire_guard_witness:
  "keys bound1 ''2222'' =
     Some \<lparr>ident = 0, created = 0, agent = [], urls = [],
           ufile = Some \<lparr>up_filename = ''book.epub'', path = ''uploads/id-1-book.epub'',
                          up_type = ''application/epub+zip''\<rparr>,
           timer = Some 0\<rparr> \<and>
   keys (expire1 ''2222'' 0 bound1) ''2222'' = None \<and>
   disk (expire1 ''2222'' 0 bound1) ''uploads/id-1-book.epub'' = None \<and>
   expire1 ''2222'' 0 realloc1 = realloc1 \<and>
   keys init2 ''2222'' = None \<and> expire2 ''2222'' init2 = init2 \<and>
   0 < length (pending bound2) \<and> pending bound2 ! 0 = (''2222'', 0) \<and>
   keys (fire2 0 bound2) = (keys bound2)(''2222'' := None)"
proof -
  let ?j = "\<lparr>ident = 0, created = 0, agent = [], urls = [],
           ufile = Some \<lparr>up_filename = ''book.epub'', path = ''uploads/id-1-book.epub'',
                          up_type = ''application/epub+zip''\<rparr>,
           timer = Some 0\<rparr>"
  note th = expire_guard [where t = bound1 and k = "''2222''" and idn = 0
      and t' = realloc1 and k' = "''2222''" and idn' = 0
      and s = init2 and ?k2.0 = "''2222''"
      and r = bound2 and chars = keyChars and len = keyLength
      and evs = "[Generate2 zeroes None 0,
          Upload2 (Form (Some (FString ''2222'')) (Some (FFile bookA))) ''id-1'']"
      and n = 0 and c = "''2222''" and idc = 0]
  note thA = th [THEN conjunct1]
    and thB = th [THEN conjunct2, THEN conjunct1]
    and thC = th [THEN conjunct2, THEN conjunct2, THEN conjunct1]
    and thD = th [THEN conjunct2, THEN conjunct2, THEN conjunct2]
  have a: "keys bound1 ''2222'' = Some ?j" by (simp add: bound1_eq)
  have "keys bound1 ''2222'' = Some ?j \<and> ident ?j = 0" using a by simp
  from thA [THEN spec, THEN mp, OF this]
  have e: "expire1 ''2222'' 0 bound1 =
        bound1\<lparr>keys := (keys bound1)(''2222'' := None),
               disk := removeFile (ufile ?j) (disk bound1)\<rparr>" .
  have b: "keys (expire1 ''2222'' 0 bound1) ''2222'' = None"
    "disk (expire1 ''2222'' 0 bound1) ''uploads/id-1-book.epub'' = None"
    by (simp_all add: e removeFile_def)
  have "\<forall>j. keys realloc1 ''2222'' = Some j \<longrightarrow> ident j \<noteq> 0" by (simp add: realloc1_eq)
  from thB [THEN mp, OF this] have c: "expire1 ''2222'' 0 realloc1 = realloc1" .
  have d: "keys init2 ''2222'' = None" by (simp add: init2_def)
  from thC [THEN mp, OF this] have f: "expire2 ''2222'' init2 = init2" .
  from thD [THEN mp, OF conjI [OF bound2_run conjI [OF bound2_pending]]]
  have g: "keys (fire2 0 bound2) = (keys bound2)(''2222'' := None)" by (elim exE conjE)
  show ?thesis using a b c d f g bound2_pending by (intro conjI)
qed

lemma oneKey1_eq:
  "oneKey1 =
     \<lparr>keys = [''2222'' \<mapsto> \<lparr>ident = 0, created = 0, agent = [], urls = [], ufile = None,
                          timer = Some 0\<rparr>],
      pending = [(''2222'', 0)], fresh = 1,
      deadline = (\<lambda>n. 0)(0 := maxExpireDuration * 1000), disk = Map.empty\<rparr>"
  by (simp add: oneKey1_def run1_def init1_def generate1_def alloc_eval candidate_zeroes
      orEmpty_def)

text \<open>
  The clock advanced over the session of the sample run with a file bound, in each program:
  one millisecond before the deadline nothing happens; at the deadline the session and its
  file are removed.
\<close>

lemma nextDue_bound2: "nextDue 3600000 bound2 = Some 0" "nextDue 3599999 bound2 = None"
  by (simp_all add: nextDue_def bound2_eq maxExpireDuration_def)

lemma nextDue_bound1: "nextDue 3600000 bound1 = Some 0" "nextDue 3599999 bound1 = None"
  by (simp_all add: nextDue_def bound1_eq maxExpireDuration_def)

lemma advance2_idle: "pending s = [] \<Longrightarrow> advance2 t s = s"
  by (simp add: advance2.simps [of t s] nextDue_def)

lemma advance1_idle: "pending s = [] \<Longrightarrow> advance1 t s = s"
  by (simp add: advance1.simps [of t s] nextDue_def)

lemma advance2_before: "advance2 3599999 bound2 = bound2"
  by (simp add: advance2.simps [of _ bound2] nextDue_bound2)

lemma advance1_before: "advance1 3599999 bound1 = bound1"
  by (simp add: advance1.simps [of _ bound1] nextDue_bound1)

lemma advance2_after:
  "advance2 3600000 bound2 =
     \<lparr>keys = Map.empty, pending = [], fresh = 1,
      deadline = (\<lambda>n. 0)(0 := maxExpireDuration * 1000), files = Map.empty\<rparr>"
proof -
  have "advance2 3600000 bound2 = advance2 3600000 (fire2 0 bound2)"
    by (simp add: advance2.simps [of _ bound2] nextDue_bound2)
  also have "fire2 0 bound2 = \<lparr>keys = Map.empty, pending = [], fresh = 1,
      deadline = (\<lambda>n. 0)(0 := maxExpireDuration * 1000), files = Map.empty\<rparr>"
    by (simp add: bound2_eq fire2_def expire2_def removeAt_def)
  also have "advance2 3600000 \<dots> = \<dots>"
    by (simp add: advance2_idle)
  finally show ?thesis .
qed

lemma advance1_after:
  "advance1 3600000 bound1 =
     \<lparr>keys = Map.empty, pending = [], fresh = 1,
      deadline = (\<lambda>n. 0)(0 := maxExpireDuration * 1000), disk = Map.empty\<rparr>"
proof -
  have "advance1 3600000 bound1 = advance1 3600000 (fire1 0 bound1)"
    by (simp add: advance1.simps [of _ bound1] nextDue_bound1)
  also have "fire1 0 bound1 = \<lparr>keys = Map.empty, pending = [], fresh = 1,
      deadline = (\<lambda>n. 0)(0 := maxExpireDuration * 1000), disk = Map.empty\<rparr>"
    by (simp add: bound1_eq fire1_def expire1_def removeAt_def removeFile_def)
  also have "advance1 3600000 \<dots> = \<dots>"
    by (simp add: advance1_idle)
  finally show ?thesis .
qed

text \<open>
  C7 at a concrete input, in each program: a session created at time 0 with a file bound,
  and the clock advanced to 3600000.
\<close>

theorem expiry_removes_witness:
  "keys bound2 ''2222'' =
     Some \<lparr>ident = 0, created = 0, agent = [], urls = [], fileId = Some ''id-1''\<rparr> \<and>
   files bound2 ''id-1'' = Some bookA \<and>
   (''2222'', 0) \<in> set (pending bound2) \<and> deadline bound2 0 = 3600000 \<and>
   keys (advance2 3600000 bound2) ''2222'' = None \<and>
   download2 ''2222'' (advance2 3600000 bound2) = notFound2 \<and>
   files (advance2 3600000 bound2) ''id-1'' = None \<and>
   keys bound1 ''2222'' =
     Some \<lparr>ident = 0, created = 0, agent = [], urls = [],
           ufile = Some \<lparr>up_filename = ''book.epub'', path = ''uploads/id-1-book.epub'',
                          up_type = ''application/epub+zip''\<rparr>,
           timer = Some 0\<rparr> \<and>
   disk bound1 ''uploads/id-1-book.epub'' = Some [1, 2, 3, 4, 5, 6, 7, 8, 9, 10] \<and>
   (''2222'', 0) \<in> set (pending bound1) \<and> deadline bound1 0 = 3600000 \<and>
   keys (advance1 3600000 bound1) ''2222'' = None \<and>
   download1 plainlib (Some ''2222'') (advance1 3600000 bound1) = Inl notFound1 \<and>
   disk (advance1 3600000 bound1) ''uploads/id-1-book.epub'' = None"
proof -
  let ?i = "\<lparr>ident = 0, created = 0, agent = [], urls = [], fileId = Some ''id-1''\<rparr>"
  let ?f = "\<lparr>up_filename = ''book.epub'', path = ''uploads/id-1-book.epub'',
             up_type = ''application/epub+zip''\<rparr>"
  let ?j = "\<lparr>ident = 0, created = 0, agent = [], urls = [], ufile = Some ?f,
             timer = Some 0\<rparr>"
  have k2: "keys bound2 ''2222'' = Some ?i" by (simp add: bound2_eq)
  have k1: "keys bound1 ''2222'' = Some ?j" by (simp add: bound1_eq)
  have f2: "files bound2 ''id-1'' = Some bookA" by (simp add: bound2_eq)
  have f1: "disk bound1 ''uploads/id-1-book.epub'' = Some [1, 2, 3, 4, 5, 6, 7, 8, 9, 10]"
    by (simp add: bound1_eq)
  note th = expiry_removes [where s = bound2 and chars = keyChars and len = keyLength
      and evs = "[Generate2 zeroes None 0,
          Upload2 (Form (Some (FString ''2222'')) (Some (FFile bookA))) ''id-1'']"
      and k = "''2222''" and i = ?i
      and u = bound1 and lib = plainlib
      and ?evs1.0 = "[Generate1 zeroes None 0,
          Upload1 (FormData [formA]) (Some ''2222'') ''id-1'']"
      and c = "''2222''" and j = ?j]
  note a = th [THEN conjunct1, THEN mp, OF conjI [OF bound2_run k2]]
  note b = th [THEN conjunct2, THEN mp, OF conjI [OF bound1_run k1]]
  have le: "created ?i + maxExpireDuration * 1000 \<le> 3600000"
    "created ?j + maxExpireDuration * 1000 \<le> 3600000"
    by (simp_all add: maxExpireDuration_def)
  have a1: "(''2222'', 0) \<in> set (pending bound2)" using a [THEN conjunct1] by simp
  have a2: "deadline bound2 0 = 3600000"
    using a [THEN conjunct2, THEN conjunct1] by (simp add: maxExpireDuration_def)
  note a3 = a [THEN conjunct2, THEN conjunct2, THEN spec, THEN mp, OF le(1)]
  have a4: "files (advance2 3600000 bound2) ''id-1'' = None"
    using a3 [THEN conjunct2, THEN conjunct2] by simp
  have b1: "(''2222'', 0) \<in> set (pending bound1)" using b [THEN conjunct1] by simp
  have b2: "deadline bound1 0 = 3600000"
    using b [THEN conjunct2, THEN conjunct1] by (simp add: maxExpireDuration_def)
  note b3 = b [THEN conjunct2, THEN conjunct2, THEN spec, THEN mp, OF le(2)]
  have b4: "disk (advance1 3600000 bound1) ''uploads/id-1-book.epub'' = None"
    using b3 [THEN conjunct2, THEN conjunct2] by simp
  show ?thesis
    using k2 f2 a1 a2 a3 [THEN conjunct1] a3 [THEN conjunct2, THEN conjunct1] a4
      k1 f1 b1 b2 b3 [THEN conjunct1] b3 [THEN conjunct2, THEN conjunct1] b4
    by (intro conjI)
qed

text \<open>
  C6 at concrete inputs: a code never allocated, a code with no file bound, and a code whose
  session expired; before it expired, the download of that code succeeded.
\<close>

theorem download_not_found_witness:
  "download2 ''2222'' init2 = notFound2 \<and>
   download2 ''2222'' oneKey2 = notFound2 \<and>
   status (download2 ''2222'' bound2) = 200 \<and>
   download2 ''2222'' (fire2 0 bound2) = notFound2 \<and>
   download1 plainlib (Some ''2222'') init1 = Inl notFound1 \<and>
   download1 plainlib (Some ''2222'') oneKey1 = Inl notFound1 \<and>
   download1 plainlib (Some ''2222'') (fire1 0 bound1) = Inl notFound1"
proof -
  let ?i = "\<lparr>ident = 0, created = 0, agent = [], urls = [], fileId = None\<rparr>"
  let ?j = "\<lparr>ident = 0, created = 0, agent = [], urls = [], ufile = None, timer = Some 0\<rparr>"
  note th = download_not_found [where s = init2 and k = "''2222''"
      and s' = oneKey2 and k' = "''2222''"
      and r = bound2 and chars = keyChars and len = keyLength
      and evs = "[Generate2 zeroes None 0,
          Upload2 (Form (Some (FString ''2222'')) (Some (FFile bookA))) ''id-1'']"
      and n = 0 and kr = "''2222''"
      and t = init1 and c = "''2222''" and lib = plainlib
      and t' = oneKey1 and c' = "''2222''"
      and u = bound1
      and ?evs1.0 = "[Generate1 zeroes None 0,
          Upload1 (FormData [formA]) (Some ''2222'') ''id-1'']"
      and m = 0 and cu = "''2222''"]
  note th1 = th [THEN conjunct1]
    and th2 = th [THEN conjunct2, THEN conjunct1]
    and th3 = th [THEN conjunct2, THEN conjunct2, THEN conjunct1]
    and th4 = th [THEN conjunct2, THEN conjunct2, THEN conjunct2, THEN conjunct1]
    and th5 = th [THEN conjunct2, THEN conjunct2, THEN conjunct2, THEN conjunct2, THEN conjunct1]
    and th6 = th [THEN conjunct2, THEN conjunct2, THEN conjunct2, THEN conjunct2, THEN conjunct2]
  have "keys init2 ''2222'' = None" by (simp add: init2_def)
  from th1 [THEN mp, OF this] have a: "download2 ''2222'' init2 = notFound2" .
  have "keys oneKey2 ''2222'' = Some ?i \<and> fileId ?i = None" by (simp add: oneKey2_eq)
  from th2 [THEN spec, THEN mp, OF this] have b: "download2 ''2222'' oneKey2 = notFound2" .
  have "fst (pending bound2 ! 0) = ''2222''" by (simp add: bound2_pending)
  from th3 [THEN mp, OF conjI [OF bound2_run conjI [OF bound2_pending(1) this]]]
  have c: "download2 ''2222'' (fire2 0 bound2) = notFound2" .
  have "keys init1 ''2222'' = None" by (simp add: init1_def)
  from th4 [THEN mp, OF this] have d: "download1 plainlib (Some ''2222'') init1 = Inl notFound1" .
  have "keys oneKey1 ''2222'' = Some ?j \<and> ufile ?j = None" by (simp add: oneKey1_eq)
  from th5 [THEN spec, THEN mp, OF this]
  have e: "download1 plainlib (Some ''2222'') oneKey1 = Inl notFound1" .
  have "fst (pending bound1 ! 0) = ''2222''" by (simp add: bound1_pending)
  from th6 [THEN mp, OF conjI [OF bound1_run conjI [OF bound1_pending(1) this]]]
  have f: "download1 plainlib (Some ''2222'') (fire1 0 bound1) = Inl notFound1" .
  have g: "status (download2 ''2222'' bound2) = 200"
    by (simp add: bound2_eq download2_def)
  show ?thesis using a b g c d e f by (intro conjI)
qed

section \<open>Uploads with a bad key\<close>

lemma unreferencedI:
  "(\<And>k i f. keys s k = Some i \<Longrightarrow> ufile i = Some f \<Longrightarrow> path f \<noteq> p) \<Longrightarrow> unreferenced p s"
  unfolding unreferenced_def by blast

lemma unreferencedD:
  "unreferenced p s \<Longrightarrow> keys s k = Some i \<Longrightarrow> ufile i = Some f \<Longrightarrow> path f \<noteq> p"
  unfolding unreferenced_def by blast

lemma removeFile_other:
  assumes "\<And>f. g = Some f \<Longrightarrow> path f \<noteq> p"
  shows "removeFile g d p = d p"
proof (cases g)
  case None
  then show ?thesis by (simp add: removeFile_def)
next
  case (Some f)
  then have "path f \<noteq> p" by (rule assms)
  then show ?thesis using Some by (simp add: removeFile_def)
qed

lemma handleUpload_cases:
  "handleUpload lib rb uuid d = (Inl e, d') \<Longrightarrow> d' = d"
  "handleUpload lib rb uuid d = (Inr g, d') \<Longrightarrow>
     \<exists>f rest. rb = FormData (f # rest) \<and> path g = uploadPath lib uuid f \<and>
       d' = d(uploadPath lib uuid f \<mapsto> overwrite (d (uploadPath lib uuid f)) (content f))"
  by (auto simp: handleUpload_def Let_def
      split: reqbody1.splits list.splits if_splits option.splits)

lemma generate1_keeps:
  assumes d: "disk s p = Some b" and u: "unreferenced p s"
  shows "disk (snd (generate1 chars len rnd ua now s)) p = Some b \<and>
         unreferenced p (snd (generate1 chars len rnd ua now s))"
  using generate1_cases [of chars len rnd ua now s]
proof (elim disjE exE conjE)
  assume "snd (generate1 chars len rnd ua now s) = s"
  then show ?thesis using d u by simp
next
  fix key
  let ?new = "\<lparr>ident = fresh s, created = now, agent = orEmpty ua, urls = [], ufile = None,
               timer = Some (fresh s)\<rparr>"
  assume eq: "snd (generate1 chars len rnd ua now s) =
        s\<lparr>keys := (keys s)(key \<mapsto> ?new),
           pending := pending s @ [(key, fresh s)],
           fresh := Suc (fresh s),
           deadline := (deadline s)(fresh s := now + maxExpireDuration * 1000)\<rparr>"
  have "unreferenced p (s\<lparr>keys := (keys s)(key \<mapsto> ?new),
           pending := pending s @ [(key, fresh s)], fresh := Suc (fresh s),
           deadline := (deadline s)(fresh s := now + maxExpireDuration * 1000)\<rparr>)"
  proof (rule unreferencedI)
    fix k i f
    assume k: "keys (s\<lparr>keys := (keys s)(key \<mapsto> ?new),
           pending := pending s @ [(key, fresh s)], fresh := Suc (fresh s),
           deadline := (deadline s)(fresh s := now + maxExpireDuration * 1000)\<rparr>) k = Some i"
      and f: "ufile i = Some f"
    show "path f \<noteq> p"
    proof (cases "k = key")
      case True
      then have "i = ?new" using k by simp
      then show ?thesis using f by simp
    next
      case False
      then have "keys s k = Some i" using k by simp
      then show ?thesis by (rule unreferencedD [OF u _ f])
    qed
  qed
  then show ?thesis using d by (simp add: eq)
qed

lemma expire1_keeps:
  assumes d: "disk s p = Some b" and u: "unreferenced p s"
  shows "disk (expire1 k idn s) p = Some b \<and> unreferenced p (expire1 k idn s)"
proof (cases "\<exists>j. keys s k = Some j \<and> ident j = idn")
  case False
  then have "expire1 k idn s = s" by (simp add: expire1_other)
  then show ?thesis using assms by simp
next
  case True
  then obtain j where j: "keys s k = Some j" "ident j = idn" by blast
  have r: "removeFile (ufile j) (disk s) p = disk s p"
    by (rule removeFile_other) (rule unreferencedD [OF u j(1)])
  have "unreferenced p (s\<lparr>keys := (keys s)(k := None),
      disk := removeFile (ufile j) (disk s)\<rparr>)"
  proof (rule unreferencedI)
    fix k' i f
    assume k: "keys (s\<lparr>keys := (keys s)(k := None),
      disk := removeFile (ufile j) (disk s)\<rparr>) k' = Some i" and f: "ufile i = Some f"
    have "keys s k' = Some i" using k by (simp split: if_splits)
    then show "path f \<noteq> p" by (rule unreferencedD [OF u _ f])
  qed
  then show ?thesis using d r j by (simp add: expire1_match)
qed

lemma fire1_keeps:
  assumes "disk s p = Some b" and "unreferenced p s"
  shows "disk (fire1 n s) p = Some b \<and> unreferenced p (fire1 n s)"
proof (cases "n < length (pending s)")
  case False
  then show ?thesis using assms by (simp add: fire1_def)
next
  case True
  have "disk (s\<lparr>pending := removeAt n (pending s)\<rparr>) p = Some b"
    "unreferenced p (s\<lparr>pending := removeAt n (pending s)\<rparr>)"
    using assms by (simp_all add: unreferenced_def)
  then show ?thesis using True by (simp add: fire1_def expire1_keeps)
qed

lemma upload1_keeps:
  assumes d: "disk s p = Some b" and u: "unreferenced p s"
    and w: "writes lib (Upload1 rb kh uuid) \<noteq> Some p"
  shows "disk (snd (upload1 lib rb kh uuid s)) p = Some b \<and>
         unreferenced p (snd (upload1 lib rb kh uuid s))"
proof (cases "handleUpload lib rb uuid (disk s)")
  case (Pair res d')
  show ?thesis
  proof (cases res)
    case (Inl e)
    then have "d' = disk s" using Pair handleUpload_cases(1) by blast
    then have "snd (upload1 lib rb kh uuid s) = s\<lparr>disk := disk s\<rparr>"
      using Pair Inl by (simp add: upload1_def)
    then show ?thesis using d u by (simp add: unreferenced_def)
  next
    case (Inr g)
    then obtain f rest where f: "rb = FormData (f # rest)" "path g = uploadPath lib uuid f"
      "d' = (disk s)(uploadPath lib uuid f \<mapsto>
               overwrite (disk s (uploadPath lib uuid f)) (content f))"
      using Pair handleUpload_cases(2) by blast
    have ne: "uploadPath lib uuid f \<noteq> p" using w f(1) by simp
    then have dp: "d' p = Some b" using f(3) d by simp
    let ?key = "case kh of None \<Rightarrow> None | Some v \<Rightarrow> toUpperCase v"
    show ?thesis
    proof (cases "?key = None \<or> ?key = Some [] \<or> keys s (the ?key) = None")
      case True
      then have "snd (upload1 lib rb kh uuid s) = s\<lparr>disk := d'\<rparr>"
        using Pair Inr by (simp add: upload1_def Let_def)
      then show ?thesis using dp u by (simp add: unreferenced_def)
    next
      case False
      then obtain K i where x: "?key = Some K" "K \<noteq> []" "keys s K = Some i"
        by (cases ?key) auto
      let ?K = K
      have eq: "snd (upload1 lib rb kh uuid s) =
          s\<lparr>keys := (keys s)(?K \<mapsto> i\<lparr>ufile := Some g\<rparr>), disk := removeFile (ufile i) d'\<rparr>"
        using Pair Inr x by (simp add: upload1_def Let_def)
      have r: "removeFile (ufile i) d' p = d' p"
        by (rule removeFile_other) (rule unreferencedD [OF u x(3)])
      have "unreferenced p (s\<lparr>keys := (keys s)(?K \<mapsto> i\<lparr>ufile := Some g\<rparr>),
          disk := removeFile (ufile i) d'\<rparr>)"
      proof (rule unreferencedI)
        fix k' i' f'
        assume k: "keys (s\<lparr>keys := (keys s)(?K \<mapsto> i\<lparr>ufile := Some g\<rparr>),
          disk := removeFile (ufile i) d'\<rparr>) k' = Some i'" and f': "ufile i' = Some f'"
        show "path f' \<noteq> p"
        proof (cases "k' = ?K")
          case True
          then have "i' = i\<lparr>ufile := Some g\<rparr>" using k by simp
          then have "f' = g" using f' by simp
          then show ?thesis using ne f(2) by simp
        next
          case False
          then have "keys s k' = Some i'" using k by simp
          then show ?thesis by (rule unreferencedD [OF u _ f'])
        qed
      qed
      then show ?thesis using dp r by (simp add: eq)
    qed
  qed
qed

lemma step1_keeps:
  assumes "disk s p = Some b" and "unreferenced p s" and "writes lib ev \<noteq> Some p"
  shows "disk (step1 lib chars len s ev) p = Some b \<and> unreferenced p (step1 lib chars len s ev)"
proof (cases ev)
  case (Generate1 rnd ua now)
  then show ?thesis using generate1_keeps [OF assms(1,2)] by simp
next
  case (Upload1 rb kh uuid)
  then show ?thesis using upload1_keeps [OF assms(1,2)] assms(3) by simp
next
  case (Download1 k)
  then show ?thesis using assms by simp
next
  case (Fire1 n)
  then show ?thesis using fire1_keeps [OF assms(1,2)] by simp
qed

lemma steps1_keep:
  assumes "disk s p = Some b" and "unreferenced p s" and "\<forall>ev \<in> set evs. writes lib ev \<noteq> Some p"
  shows "disk (foldl (step1 lib chars len) s evs) p = Some b"
  using assms
proof (induction evs arbitrary: s)
  case Nil
  then show ?case by simp
next
  case (Cons ev evs)
  have "writes lib ev \<noteq> Some p" using Cons.prems(3) by simp
  from step1_keeps [OF Cons.prems(1,2) this]
  have "disk (step1 lib chars len s ev) p = Some b" "unreferenced p (step1 lib chars len s ev)"
    by simp_all
  moreover have "\<forall>ev \<in> set evs. writes lib ev \<noteq> Some p" using Cons.prems(3) by simp
  ultimately have "disk (foldl (step1 lib chars len) (step1 lib chars len s ev) evs) p = Some b"
    by (rule Cons.IH)
  then show ?case by simp
qed

lemma upload1_bad_key:
  assumes rb: "rb = FormData (f # rest)"
    and ext: "drop 1 (toLowerCase (extname lib (filename f))) \<in> set allowedExtensions"
    and opn: "openFails lib (uploadPath lib uuid f) = None"
    and key: "\<forall>x K. kh = Some x \<and> toUpperCase x = Some K \<longrightarrow> keys s K = None"
  shows "upload1 lib rb kh uuid s =
           (failed1 (badRequest ''Invalid key''),
            s\<lparr>disk := (disk s)(uploadPath lib uuid f \<mapsto>
                 overwrite (disk s (uploadPath lib uuid f)) (content f))\<rparr>)"
proof -
  have h: "handleUpload lib rb uuid (disk s) =
      (Inr \<lparr>up_filename = filename f, path = uploadPath lib uuid f, up_type = contentType f\<rparr>,
       (disk s)(uploadPath lib uuid f \<mapsto>
          overwrite (disk s (uploadPath lib uuid f)) (content f)))"
    using ext opn by (simp add: handleUpload_def rb Let_def)
  let ?key = "case kh of None \<Rightarrow> None | Some v \<Rightarrow> toUpperCase v"
  have "?key = None \<or> ?key = Some [] \<or> keys s (the ?key) = None"
  proof (cases ?key)
    case None
    then show ?thesis by simp
  next
    case (Some K)
    then obtain x where "kh = Some x" "toUpperCase x = Some K" by (cases kh) auto
    then have "keys s K = None" using key by blast
    then show ?thesis using Some by simp
  qed
  then show ?thesis by (simp add: upload1_def h Let_def)
qed

text \<open>
  C10, as stated, for a file named \<^verbatim>\<open>a/b.epub\<close> (its extension is allowed) and no key: the
  path to write to lies in a directory that does not exist, \<^verbatim>\<open>Deno.open\<close> throws, the answer
  is 400 with the message of that error, and nothing has been stored.
\<close>

theorem upload_before_key_check_counterexample:
  "drop 1 (toLowerCase (extname plainlib (filename formSlash))) \<in> set allowedExtensions \<and>
   upload1 plainlib (FormData [formSlash]) None ''id-9'' oneKey1 =
     (failed1 (Error ''No such file or directory (os error 2)''), oneKey1) \<and>
   disk (snd (upload1 plainlib (FormData [formSlash]) None ''id-9'' oneKey1)) = disk oneKey1"
proof -
  have e: "drop (Suc 0) (toLowerCase (extname plainlib ''a/b.epub'')) = ''epub''"
    by (simp add: plainlib_def plainExt_def baseName_def toLowerCase_def lowerChar_def
      lastSegment_def)
  have o: "openFails plainlib (uploadPath plainlib ''id-9'' formSlash) =
      Some ''No such file or directory (os error 2)''"
    by (simp add: uploadPath_def plainlib_def formSlash_def)
  have f: "filename formSlash = ''a/b.epub''" by (simp add: formSlash_def)
  have h: "handleUpload plainlib (FormData [formSlash]) ''id-9'' (disk oneKey1) =
      (Inl (Error ''No such file or directory (os error 2)''), disk oneKey1)"
    by (simp add: handleUpload_def Let_def f e o allowedExtensions_def)
  have u: "upload1 plainlib (FormData [formSlash]) None ''id-9'' oneKey1 =
     (failed1 (Error ''No such file or directory (os error 2)''), oneKey1)"
    by (simp add: upload1_def h)
  have a: "drop 1 (toLowerCase (extname plainlib (filename formSlash))) \<in> set allowedExtensions"
    using e by (simp add: f allowedExtensions_def)
  show ?thesis using a u by simp
qed

text \<open>
  C10, amended. In \<^verbatim>\<open>index.js\<close>, take an upload request with a file of an allowed extension
  whose path can be opened for writing, and a \<^verbatim>\<open>key\<close> header that is missing or names no
  live code. It is answered with status 400 ("Invalid key") and leaves the sessions as they
  were, but the file has been written to its path: its bytes alone at a path that was free,
  its bytes over the start of the old ones at a path that was taken. If no session's file
  has that path and no later upload writes to it, the file stays as it is whatever happens
  later.
\<close>

theorem upload_before_key_check:
  "rb = FormData (f # rest) \<and>
   drop 1 (toLowerCase (extname lib (filename f))) \<in> set allowedExtensions \<and>
   p = uploadPath lib uuid f \<and> openFails lib p = None \<and>
   (\<forall>x K. kh = Some x \<and> toUpperCase x = Some K \<longrightarrow> keys s K = None) \<and>
   unreferenced p s \<and>
   (\<forall>ev \<in> set evs. writes lib ev \<noteq> Some p)
   \<longrightarrow>
   fst (upload1 lib rb kh uuid s) =
     \<lparr>status = 400, body = Json False ''Invalid key'', headers = []\<rparr> \<and>
   keys (snd (upload1 lib rb kh uuid s)) = keys s \<and>
   (disk s p = None \<longrightarrow> disk (snd (upload1 lib rb kh uuid s)) p = Some (content f)) \<and>
   (\<forall>old. disk s p = Some old \<longrightarrow>
      disk (snd (upload1 lib rb kh uuid s)) p =
        Some (content f @ drop (length (content f)) old)) \<and>
   (\<forall>q. q \<noteq> p \<longrightarrow> disk (snd (upload1 lib rb kh uuid s)) q = disk s q) \<and>
   disk (snd (upload1 lib rb kh uuid s)) p \<noteq> None \<and>
   disk (foldl (step1 lib chars len) (snd (upload1 lib rb kh uuid s)) evs) p =
     disk (snd (upload1 lib rb kh uuid s)) p"
proof (intro impI)
  assume h: "rb = FormData (f # rest) \<and>
   drop 1 (toLowerCase (extname lib (filename f))) \<in> set allowedExtensions \<and>
   p = uploadPath lib uuid f \<and> openFails lib p = None \<and>
   (\<forall>x K. kh = Some x \<and> toUpperCase x = Some K \<longrightarrow> keys s K = None) \<and>
   unreferenced p s \<and>
   (\<forall>ev \<in> set evs. writes lib ev \<noteq> Some p)"
  then have rb: "rb = FormData (f # rest)"
    and ext: "drop 1 (toLowerCase (extname lib (filename f))) \<in> set allowedExtensions"
    and p: "p = uploadPath lib uuid f" and opn: "openFails lib p = None"
    and key: "\<forall>x K. kh = Some x \<and> toUpperCase x = Some K \<longrightarrow> keys s K = None"
    and u: "unreferenced p s"
    and w: "\<forall>ev \<in> set evs. writes lib ev \<noteq> Some p"
    by blast+
  let ?s' = "s\<lparr>disk := (disk s)(p \<mapsto> overwrite (disk s p) (content f))\<rparr>"
  have eq: "upload1 lib rb kh uuid s = (failed1 (badRequest ''Invalid key''), ?s')"
    using upload1_bad_key [OF rb ext opn [unfolded p] key] unfolding p .
  have d: "disk ?s' p = Some (overwrite (disk s p) (content f))" by simp
  have u': "unreferenced p ?s'" using u by (simp add: unreferenced_def)
  have keep: "disk (foldl (step1 lib chars len) ?s' evs) p = disk ?s' p"
    using steps1_keep [OF d u' w] by simp
  have r: "failed1 (badRequest ''Invalid key'') =
      \<lparr>status = 400, body = Json False ''Invalid key'', headers = []\<rparr>"
    by (simp add: failed1_def badRequest_def message_def orEmpty_def)
  have free: "disk s p = None \<longrightarrow> disk ?s' p = Some (content f)"
    by (simp add: overwrite_def)
  have taken: "\<forall>old. disk s p = Some old \<longrightarrow>
      disk ?s' p = Some (content f @ drop (length (content f)) old)"
    by (simp add: overwrite_def)
  have other: "\<forall>q. q \<noteq> p \<longrightarrow> disk ?s' q = disk s q" by simp
  have some: "disk ?s' p \<noteq> None" by simp
  have k: "keys ?s' = keys s" by simp
  show "fst (upload1 lib rb kh uuid s) =
     \<lparr>status = 400, body = Json False ''Invalid key'', headers = []\<rparr> \<and>
   keys (snd (upload1 lib rb kh uuid s)) = keys s \<and>
   (disk s p = None \<longrightarrow> disk (snd (upload1 lib rb kh uuid s)) p = Some (content f)) \<and>
   (\<forall>old. disk s p = Some old \<longrightarrow>
      disk (snd (upload1 lib rb kh uuid s)) p =
        Some (content f @ drop (length (content f)) old)) \<and>
   (\<forall>q. q \<noteq> p \<longrightarrow> disk (snd (upload1 lib rb kh uuid s)) q = disk s q) \<and>
   disk (snd (upload1 lib rb kh uuid s)) p \<noteq> None \<and>
   disk (foldl (step1 lib chars len) (snd (upload1 lib rb kh uuid s)) evs) p =
     disk (snd (upload1 lib rb kh uuid s)) p"
    unfolding eq fst_conv snd_conv
    by (intro conjI) (rule r k free taken other some keep)+
qed

lemma char_of_90: "char_of (90 :: nat) = CHR ''Z''"
proof -
  have "of_char CHR ''Z'' = (90 :: nat)" by simp
  then show ?thesis by (metis char_of_char)
qed

lemma upper_zzzz: "toUpperCase ''zzzz'' = Some ''ZZZZ''"
  by (simp add: upperUnits_def char_of_90)

text \<open>
  The amended C10 at concrete inputs: an upload with a key that names no live code, followed
  by the expiry of every session, a new code and an upload to it; and an upload without a
  key of a shorter file to the path the first upload wrote to.
\<close>

theorem upload_before_key_check_witness:
  "status (fst (upload1 plainlib (FormData [formA]) (Some ''zzzz'') ''id-9'' oneKey1)) = 400 \<and>
   keys refused1 = keys oneKey1 \<and>
   disk oneKey1 ''uploads/id-9-book.epub'' = None \<and>
   disk refused1 ''uploads/id-9-book.epub'' = Some [1, 2, 3, 4, 5, 6, 7, 8, 9, 10] \<and>
   disk (foldl (step1 plainlib keyChars keyLength) refused1 laterEvents)
     ''uploads/id-9-book.epub'' = Some [1, 2, 3, 4, 5, 6, 7, 8, 9, 10] \<and>
   status (fst (upload1 plainlib (FormData [formShort]) None ''id-9'' refused1)) = 400 \<and>
   disk (snd (upload1 plainlib (FormData [formShort]) None ''id-9'' refused1))
     ''uploads/id-9-book.epub'' = Some [11, 12, 13, 4, 5, 6, 7, 8, 9, 10]"
proof -
  let ?p = "''uploads/id-9-book.epub''"
  let ?u = "upload1 plainlib (FormData [formA]) (Some ''zzzz'') ''id-9'' oneKey1"
  let ?v = "upload1 plainlib (FormData [formShort]) None ''id-9'' refused1"
  have ext: "drop 1 (toLowerCase (extname plainlib (filename formA))) \<in> set allowedExtensions"
    using plain_ext_book_epub by (simp add: formA_def allowedExtensions_def)
  have ext': "drop 1 (toLowerCase (extname plainlib (filename formShort))) \<in>
      set allowedExtensions"
    using plain_ext_book_epub by (simp add: formShort_def allowedExtensions_def)
  have key: "\<forall>x K. Some ''zzzz'' = Some x \<and> toUpperCase x = Some K \<longrightarrow>
      keys oneKey1 K = None"
  proof (intro allI impI)
    fix x K assume "Some ''zzzz'' = Some x \<and> toUpperCase x = Some K"
    then have "K = ''ZZZZ''" using upper_zzzz by auto
    then show "keys oneKey1 K = None" by (simp add: oneKey1_eq)
  qed
  have key': "\<forall>x K. (None :: string option) = Some x \<and> toUpperCase x = Some K \<longrightarrow>
      keys refused1 K = None"
    by simp
  have p: "?p = uploadPath plainlib ''id-9'' formA"
    by (simp add: uploadPath_def plainlib_def formA_def)
  have p': "?p = uploadPath plainlib ''id-9'' formShort"
    by (simp add: uploadPath_def plainlib_def formShort_def)
  have opn: "openFails plainlib ?p = None" by (simp add: plainlib_def)
  have u: "unreferenced ?p oneKey1" by (simp add: unreferenced_def oneKey1_eq)
  have w: "\<forall>ev \<in> set laterEvents. writes plainlib ev \<noteq> Some ?p"
    by (simp add: laterEvents_def plain_path_A)
  have w': "\<forall>ev \<in> set ([] :: event1 list). writes plainlib ev \<noteq> Some ?p" by simp
  have d0: "disk oneKey1 ?p = None" by (simp add: oneKey1_eq)
  have c: "content formA = [1, 2, 3, 4, 5, 6, 7, 8, 9, 10]" by (simp add: formA_def)
  note th = upload_before_key_check [where rb = "FormData [formA]" and f = formA
      and rest = "[]" and lib = plainlib and kh = "Some ''zzzz''" and s = oneKey1 and p = ?p
      and uuid = "''id-9''" and evs = laterEvents and chars = keyChars and len = keyLength,
      THEN mp,
      OF conjI [OF refl conjI [OF ext conjI [OF p conjI [OF opn conjI [OF key
        conjI [OF u w]]]]]], folded refused1_def]
  note t1 = th [THEN conjunct1]
    and t2 = th [THEN conjunct2, THEN conjunct1]
    and t3 = th [THEN conjunct2, THEN conjunct2, THEN conjunct1]
    and t7 = th [THEN conjunct2, THEN conjunct2, THEN conjunct2, THEN conjunct2,
        THEN conjunct2, THEN conjunct2]
  have s: "status (fst ?u) = 400" by (simp only: t1) simp
  have a: "disk refused1 ?p = Some [1, 2, 3, 4, 5, 6, 7, 8, 9, 10]"
    using t3 [THEN mp, OF d0] by (simp only: c)
  have b: "disk (foldl (step1 plainlib keyChars keyLength) refused1 laterEvents) ?p =
      Some [1, 2, 3, 4, 5, 6, 7, 8, 9, 10]"
    by (simp only: t7 a)
  have u': "unreferenced ?p refused1"
    by (simp add: unreferenced_def t2 oneKey1_eq)
  note th' = upload_before_key_check [where rb = "FormData [formShort]" and f = formShort
      and rest = "[]" and lib = plainlib and kh = None and s = refused1 and p = ?p
      and uuid = "''id-9''" and evs = "[]" and chars = keyChars and len = keyLength,
      THEN mp,
      OF conjI [OF refl conjI [OF ext' conjI [OF p' conjI [OF opn conjI [OF key'
        conjI [OF u' w']]]]]]]
  note r1 = th' [THEN conjunct1]
    and r4 = th' [THEN conjunct2, THEN conjunct2, THEN conjunct2, THEN conjunct1,
        THEN spec, THEN mp, OF a]
  have s': "status (fst ?v) = 400" by (simp only: r1) simp
  have a': "disk (snd ?v) ?p = Some [11, 12, 13, 4, 5, 6, 7, 8, 9, 10]"
    using r4 by (simp add: formShort_def)
  show ?thesis using s t2 d0 a b s' a' by (intro conjI)
qed

lemma bookB_ok:
  "upload2 (Form (Some (FString ''2222'')) (Some (FFile bookB))) ''id-2'' bound2 =
     (jsonResponse 200 True ''File uploaded successfully'',
      \<lparr>keys = [''2222'' \<mapsto> \<lparr>ident = 0, created = 0, agent = [], urls = [],
                          fileId = Some ''id-2''\<rparr>],
       pending = [(''2222'', 0)], fresh = 1,
       deadline = (\<lambda>n. 0)(0 := maxExpireDuration * 1000),
       files = [''id-1'' \<mapsto> bookA, ''id-2'' \<mapsto> bookB]\<rparr>)"
  by (simp add: bound2_eq upload2_def formToString_def upper_2222 del: toUpperCase.simps)
     (simp add: bookB_def ext_book2_pdf allowedExtensions_def Let_def)

lemma rebound2_eq:
  "rebound2 =
     \<lparr>keys = [''2222'' \<mapsto> \<lparr>ident = 0, created = 0, agent = [], urls = [],
                          fileId = Some ''id-2''\<rparr>],
      pending = [(''2222'', 0)], fresh = 1,
      deadline = (\<lambda>n. 0)(0 := maxExpireDuration * 1000),
      files = [''id-1'' \<mapsto> bookA, ''id-2'' \<mapsto> bookB]\<rparr>"
proof -
  have "rebound2 =
      snd (upload2 (Form (Some (FString ''2222'')) (Some (FFile bookB))) ''id-2'' bound2)"
    by (simp add: rebound2_def bound2_def run2_def)
  then show ?thesis by (simp only: bookB_ok snd_conv)
qed

section \<open>Rebinding and validation\<close>

lemma plain_ext_book2_pdf: "drop (Suc 0) (toLowerCase (extname plainlib ''book2.pdf'')) = ''pdf''"
  by (simp add: plainlib_def plainExt_def baseName_def toLowerCase_def lowerChar_def
      lastSegment_def)

lemma plain_path_B: "uploadPath plainlib ''id-2'' formB = ''uploads/id-2-book2.pdf''"
  by (simp add: uploadPath_def plainlib_def formB_def)

lemma rebound1_eq:
  "rebound1 =
     \<lparr>keys = [''2222'' \<mapsto> \<lparr>ident = 0, created = 0, agent = [], urls = [],
                ufile = Some \<lparr>up_filename = ''book2.pdf'', path = ''uploads/id-2-book2.pdf'',
                               up_type = ''application/pdf''\<rparr>,
                timer = Some 0\<rparr>],
      pending = [(''2222'', 0)], fresh = 1,
      deadline = (\<lambda>n. 0)(0 := maxExpireDuration * 1000),
      disk = [''uploads/id-2-book2.pdf'' \<mapsto> [11, 12, 13]]\<rparr>"
proof -
  let ?d = "[''uploads/id-1-book.epub'' \<mapsto> [1, 2, 3, 4, 5, 6, 7, 8, 9, 10 :: 8 word]]"
  have f: "filename formB = ''book2.pdf''" "contentType formB = ''application/pdf''"
    "content formB = [11, 12, 13]" by (simp_all add: formB_def)
  have h: "handleUpload plainlib (FormData [formB]) ''id-2'' ?d =
     (Inr \<lparr>up_filename = ''book2.pdf'', path = ''uploads/id-2-book2.pdf'',
           up_type = ''application/pdf''\<rparr>,
      ?d(''uploads/id-2-book2.pdf'' \<mapsto> [11, 12, 13]))"
    by (simp add: handleUpload_def Let_def plain_ext_book2_pdf plain_path_B plain_open_B
        allowedExtensions_def overwrite_def f)
  have "rebound1 = snd (upload1 plainlib (FormData [formB]) (Some ''2222'') ''id-2'' bound1)"
    by (simp add: rebound1_def bound1_def run1_def)
  also have "\<dots> = \<lparr>keys = [''2222'' \<mapsto> \<lparr>ident = 0, created = 0, agent = [], urls = [],
                ufile = Some \<lparr>up_filename = ''book2.pdf'', path = ''uploads/id-2-book2.pdf'',
                               up_type = ''application/pdf''\<rparr>,
                timer = Some 0\<rparr>],
      pending = [(''2222'', 0)], fresh = 1,
      deadline = (\<lambda>n. 0)(0 := maxExpireDuration * 1000),
      disk = [''uploads/id-2-book2.pdf'' \<mapsto> [11, 12, 13]]\<rparr>"
    by (simp add: bound1_eq upload1_def h upper_2222 removeFile_def del: toUpperCase.simps)
  finally show ?thesis .
qed

text \<open>
  C1. In the program that keeps uploads in memory, a code has the file \<^verbatim>\<open>book.epub\<close> bound
  (stored under \<^verbatim>\<open>id-1\<close>) and a second upload binds \<^verbatim>\<open>book2.pdf\<close> (stored under
  \<^verbatim>\<open>id-2\<close>). The second upload succeeds and a download returns the second file only, but
  the first file is still in the \<^verbatim>\<open>files\<close> map, and it is still there after the session has
  expired. In \<^verbatim>\<open>index.js\<close> the same two uploads leave the first file deleted.
\<close>

theorem rebind_keeps_old_blob:
  "files bound2 ''id-1'' = Some bookA \<and>
   upload2 (Form (Some (FString ''2222'')) (Some (FFile bookB))) ''id-2'' bound2 =
     (jsonResponse 200 True ''File uploaded successfully'', rebound2) \<and>
   files rebound2 ''id-1'' = Some bookA \<and>
   download2 ''2222'' rebound2 =
     \<lparr>status = 200, body = Data [11, 12, 13],
      headers = [(''Content-Type'', ''application/pdf''),
        (''Content-Disposition'', ''attachment; filename=\"book2.pdf\"'')]\<rparr> \<and>
   keys (fire2 0 rebound2) ''2222'' = None \<and>
   files (fire2 0 rebound2) ''id-1'' = Some bookA \<and>
   disk bound1 ''uploads/id-1-book.epub'' = Some [1, 2, 3, 4, 5, 6, 7, 8, 9, 10] \<and>
   disk rebound1 ''uploads/id-1-book.epub'' = None"
proof -
  have a: "files bound2 ''id-1'' = Some bookA" by (simp add: bound2_eq)
  have b: "upload2 (Form (Some (FString ''2222'')) (Some (FFile bookB))) ''id-2'' bound2 =
     (jsonResponse 200 True ''File uploaded successfully'', rebound2)"
    by (simp only: bookB_ok rebound2_eq)
  have c: "files rebound2 ''id-1'' = Some bookA" by (simp add: rebound2_eq)
  have d: "download2 ''2222'' rebound2 =
     \<lparr>status = 200, body = Data [11, 12, 13],
      headers = [(''Content-Type'', ''application/pdf''),
        (''Content-Disposition'', ''attachment; filename=\"book2.pdf\"'')]\<rparr>"
    by (simp add: rebound2_eq download2_def bookB_def)
  have e: "keys (fire2 0 rebound2) ''2222'' = None"
    "files (fire2 0 rebound2) ''id-1'' = Some bookA"
    by (simp_all add: rebound2_eq fire2_def expire2_def removeAt_def)
  have f: "disk bound1 ''uploads/id-1-book.epub'' = Some [1, 2, 3, 4, 5, 6, 7, 8, 9, 10]"
    by (simp add: bound1_eq)
  have g: "disk rebound1 ''uploads/id-1-book.epub'' = None" by (simp add: rebound1_eq)
  show ?thesis using a b c d e f g by (intro conjI)
qed

text \<open>
  C3. \<^verbatim>\<open>allowedTypes\<close> and \<^verbatim>\<open>maxFileSize\<close> are never consulted: an upload of a file named
  \<^verbatim>\<open>book.epub\<close> to a live code succeeds, and stores and binds the file, whatever its bytes
  (so whatever their number) and whatever its declared media type, \<^verbatim>\<open>image/png\<close> for one,
  which is not in \<^verbatim>\<open>allowedTypes\<close>. This holds in both programs.
\<close>

theorem upload_unvalidated:
  "''image/png'' \<notin> set allowedTypes \<and>
   (\<forall>d t. upload2 (Form (Some (FString ''2222''))
              (Some (FFile \<lparr>data = d, name = ''book.epub'', type = t\<rparr>))) ''id-1'' oneKey2 =
      (jsonResponse 200 True ''File uploaded successfully'',
       oneKey2\<lparr>keys := [''2222'' \<mapsto> \<lparr>ident = 0, created = 0, agent = [], urls = [],
                                       fileId = Some ''id-1''\<rparr>],
               files := [''id-1'' \<mapsto> \<lparr>data = d, name = ''book.epub'', type = t\<rparr>]\<rparr>)) \<and>
   (\<forall>d t. upload1 plainlib
              (FormData [\<lparr>filename = ''book.epub'', content = d, contentType = t\<rparr>])
              (Some ''2222'') ''id-1'' oneKey1 =
      (\<lparr>status = 200, body = Json True ''File uploaded successfully'', headers = []\<rparr>,
       oneKey1\<lparr>keys := [''2222'' \<mapsto> \<lparr>ident = 0, created = 0, agent = [], urls = [],
                 ufile = Some \<lparr>up_filename = ''book.epub'', path = ''uploads/id-1-book.epub'',
                                up_type = t\<rparr>,
                 timer = Some 0\<rparr>],
               disk := [''uploads/id-1-book.epub'' \<mapsto> d]\<rparr>))"
proof (intro conjI allI)
  show "''image/png'' \<notin> set allowedTypes"
    by (simp add: allowedTypes_def TYPE_EPUB_def TYPE_MOBI_def)
next
  fix d t
  show "upload2 (Form (Some (FString ''2222''))
              (Some (FFile \<lparr>data = d, name = ''book.epub'', type = t\<rparr>))) ''id-1'' oneKey2 =
      (jsonResponse 200 True ''File uploaded successfully'',
       oneKey2\<lparr>keys := [''2222'' \<mapsto> \<lparr>ident = 0, created = 0, agent = [], urls = [],
                                       fileId = Some ''id-1''\<rparr>],
               files := [''id-1'' \<mapsto> \<lparr>data = d, name = ''book.epub'', type = t\<rparr>]\<rparr>)"
    by (simp add: oneKey2_eq upload2_def formToString_def upper_2222 del: toUpperCase.simps)
       (simp add: ext_book_epub allowedExtensions_def Let_def)
next
  fix d t
  have p: "uploadPath plainlib ''id-1''
      \<lparr>filename = ''book.epub'', content = d, contentType = t\<rparr> = ''uploads/id-1-book.epub''"
    by (simp add: uploadPath_def plainlib_def)
  have e: "drop (Suc 0) (toLowerCase (extname plainlib ''book.epub'')) = ''epub''"
    using plain_ext_book_epub by simp
  have h: "handleUpload plainlib
      (FormData [\<lparr>filename = ''book.epub'', content = d, contentType = t\<rparr>]) ''id-1''
      Map.empty =
     (Inr \<lparr>up_filename = ''book.epub'', path = ''uploads/id-1-book.epub'', up_type = t\<rparr>,
      [''uploads/id-1-book.epub'' \<mapsto> d])"
    by (simp add: handleUpload_def Let_def e p plain_open_A allowedExtensions_def
        overwrite_def)
  show "upload1 plainlib
              (FormData [\<lparr>filename = ''book.epub'', content = d, contentType = t\<rparr>])
              (Some ''2222'') ''id-1'' oneKey1 =
      (\<lparr>status = 200, body = Json True ''File uploaded successfully'', headers = []\<rparr>,
       oneKey1\<lparr>keys := [''2222'' \<mapsto> \<lparr>ident = 0, created = 0, agent = [], urls = [],
                 ufile = Some \<lparr>up_filename = ''book.epub'', path = ''uploads/id-1-book.epub'',
                                up_type = t\<rparr>,
                 timer = Some 0\<rparr>],
               disk := [''uploads/id-1-book.epub'' \<mapsto> d]\<rparr>)"
    by (simp add: oneKey1_eq upload1_def h upper_2222 removeFile_def del: toUpperCase.simps)
qed

end
